theory Spec2Isabelle
  imports Main "HOL-Library.Sublist" "HOL-Library.Word"
begin

section \<open>JavaScript strings\<close>

text \<open>
  A JavaScript string is a sequence of UTF-16 code units. A code unit is modelled by
  its number, so that the bullet glyph U+2022 of the normalizer's regular expression
  is one element, as it is in the source.
\<close>

type_synonym jsstr = "nat list"

definition asc :: "string \<Rightarrow> jsstr" where
  "asc s = map of_char s"

definition LF :: nat where
  "LF = 10"

definition BULLET :: nat where
  "BULLET = 8226"

definition is_ws :: "nat \<Rightarrow> bool" where
  \<comment> \<open>WhiteSpace and LineTerminator of ECMAScript: what \<open>trim\<close> removes and \<open>\s\<close> matches.\<close>
  "is_ws c \<longleftrightarrow>
     c = 9 \<or> c = 10 \<or> c = 11 \<or> c = 12 \<or> c = 13 \<or> c = 32 \<or> c = 160 \<or> c = 5760 \<or>
     (8192 \<le> c \<and> c \<le> 8202) \<or> c = 8232 \<or> c = 8233 \<or> c = 8239 \<or> c = 8287 \<or>
     c = 12288 \<or> c = 65279"

definition trim :: "jsstr \<Rightarrow> jsstr" where
  "trim s = rev (dropWhile is_ws (rev (dropWhile is_ws s)))"

text \<open>
  \<open>s.split(sep)\<close> for a non-empty separator: the leftmost occurrence of \<open>sep\<close> ends
  the current part, and the search goes on behind it. The program only splits on the
  three non-empty literals below.
\<close>

function js_split :: "'a list \<Rightarrow> 'a list \<Rightarrow> 'a list list" where
  "js_split sep [] = [[]]"
| "js_split sep (c # cs) =
     (if sep \<noteq> [] \<and> prefix sep (c # cs)
      then [] # js_split sep (drop (length sep) (c # cs))
      else (case js_split sep cs of
              p # ps \<Rightarrow> (c # p) # ps
            | [] \<Rightarrow> [[c]]))"
  by pat_completeness auto
termination
  by (relation "measure (\<lambda>(sep, s). length s)") (auto simp: Suc_le_eq)

fun js_join :: "'a list \<Rightarrow> 'a list list \<Rightarrow> 'a list" where
  "js_join sep [] = []"
| "js_join sep [x] = x"
| "js_join sep (x # y # ys) = x @ sep @ js_join sep (y # ys)"

function digits :: "nat \<Rightarrow> jsstr" where
  "digits n = (if n < 10 then [48 + n] else digits (n div 10) @ [48 + n mod 10])"
  by pat_completeness auto
termination
  by (relation "measure id") auto

section \<open>The slide normalizers\<close>

record slide =
  title :: jsstr
  content :: jsstr
  index :: nat

definition strip_stars :: "jsstr \<Rightarrow> jsstr" where
  \<comment> \<open>\<open>.replace(/^\*\*|\*\*$/g, '')\<close>\<close>
  "strip_stars s =
     (let r = (if prefix (asc ''**'') s then drop 2 s else s)
      in if suffix (asc ''**'') r then take (length r - 2) r else r)"

definition upper_cu :: "nat \<Rightarrow> nat" where
  "upper_cu c = (if 97 \<le> c \<and> c \<le> 122 then c - 32 else c)"

definition ci_prefix :: "jsstr \<Rightarrow> jsstr \<Rightarrow> bool" where
  \<comment> \<open>a literal of ASCII characters matched at the start under the flag \<open>i\<close>\<close>
  "ci_prefix p s \<longleftrightarrow> length p \<le> length s \<and> map upper_cu (take (length p) s) = map upper_cu p"

definition strip_label :: "jsstr \<Rightarrow> jsstr" where
  \<comment> \<open>\<open>.replace(/^Slide Title:|^Title:/i, '')\<close>\<close>
  "strip_label s =
     (if ci_prefix (asc ''Slide Title:'') s then drop 12 s
      else if ci_prefix (asc ''Title:'') s then drop 6 s
      else s)"

definition default_title :: "nat \<Rightarrow> jsstr" where
  \<comment> \<open>the template literal \<open>`Slide ${index + 1}`\<close>\<close>
  "default_title i = asc ''Slide '' @ digits (i + 1)"

definition slide_lines :: "jsstr \<Rightarrow> jsstr list" where
  \<comment> \<open>\<open>slideText.trim().split('\n').filter(line => line.trim())\<close>\<close>
  "slide_lines slideText = filter (\<lambda>line. trim line \<noteq> []) (js_split [LF] (trim slideText))"

definition slide_title :: "jsstr list \<Rightarrow> nat \<Rightarrow> jsstr" where
  \<comment> \<open>\<open>lines[0]?.replace(..).replace(..).trim() || `Slide ${index + 1}`\<close>\<close>
  "slide_title lines i =
     (case lines of
        [] \<Rightarrow> default_title i
      | l # _ \<Rightarrow>
          (let t = trim (strip_label (strip_stars l))
           in if t = [] then default_title i else t))"

definition canon_bullet :: "jsstr \<Rightarrow> jsstr" where
  \<comment> \<open>\<open>line.replace(/^[*\-\<bullet>]\s*/, '\<bullet> ')\<close>\<close>
  "canon_bullet line =
     (case line of
        [] \<Rightarrow> []
      | c # cs \<Rightarrow>
          if c = 42 \<or> c = 45 \<or> c = BULLET then [BULLET, 32] @ dropWhile is_ws cs
          else line)"

definition parseSlide_view :: "jsstr \<Rightarrow> nat \<Rightarrow> slide" where
  \<comment> \<open>\<open>parseSlide\<close> of PresentationView.tsx\<close>
  "parseSlide_view slideText i =
     (let lines = slide_lines slideText
      in \<lparr>title = slide_title lines i,
          content = js_join [LF] (map canon_bullet (drop 1 lines)),
          index = i\<rparr>)"

definition parseSlide_gen :: "jsstr \<Rightarrow> nat \<Rightarrow> slide" where
  \<comment> \<open>\<open>parseSlide\<close> of SignIn.tsx\<close>
  "parseSlide_gen slideText i =
     (let lines = slide_lines slideText
      in \<lparr>title = slide_title lines i,
          content = js_join [LF] (drop 1 lines),
          index = i\<rparr>)"

section \<open>Decoding a record: \<open>JSON.parse\<close> and the \<open>content\<close> property\<close>

text \<open>
  The value \<open>JSON.parse\<close> returns. Of a number only its truthiness is ever read
  (\<open>!slide.content\<close>), so a number is kept as a decimal mantissa and exponent
  \<open>m * 10 ^ e\<close>. An object keeps its members in source order.
\<close>

datatype json =
    JNull
  | JBool bool
  | JNum int int
  | JStr jsstr
  | JArr "json list"
  | JObj "(jsstr \<times> json) list"

datatype js_error = SyntaxError | TypeError

definition json_ws :: "nat \<Rightarrow> bool" where
  "json_ws c \<longleftrightarrow> c = 32 \<or> c = 9 \<or> c = 10 \<or> c = 13"

definition skip_ws :: "jsstr \<Rightarrow> jsstr" where
  "skip_ws s = dropWhile json_ws s"

definition is_digit :: "nat \<Rightarrow> bool" where
  "is_digit c \<longleftrightarrow> 48 \<le> c \<and> c \<le> 57"

definition hex_val :: "nat \<Rightarrow> nat option" where
  "hex_val c =
     (if 48 \<le> c \<and> c \<le> 57 then Some (c - 48)
      else if 65 \<le> c \<and> c \<le> 70 then Some (c - 55)
      else if 97 \<le> c \<and> c \<le> 102 then Some (c - 87)
      else None)"

definition hex4 :: "jsstr \<Rightarrow> nat option" where
  "hex4 s =
     (case map hex_val s of
        [Some a, Some b, Some c, Some d] \<Rightarrow> Some (((a * 16 + b) * 16 + c) * 16 + d)
      | _ \<Rightarrow> None)"

definition unescape :: "nat \<Rightarrow> nat option" where
  \<comment> \<open>the character behind a backslash, \<open>u\<close> apart\<close>
  "unescape e =
     (if e = 34 \<or> e = 92 \<or> e = 47 then Some e
      else if e = 98 then Some 8
      else if e = 102 then Some 12
      else if e = 110 then Some 10
      else if e = 114 then Some 13
      else if e = 116 then Some 9
      else None)"

fun parse_chars :: "jsstr \<Rightarrow> (jsstr \<times> jsstr) option" where
  \<comment> \<open>a string literal behind its opening quote: the string and the rest of the input\<close>
  "parse_chars [] = None"
| "parse_chars (c # cs) =
     (if c = 34 then Some ([], cs)
      else if c = 92 then
        (case cs of
           [] \<Rightarrow> None
         | e # es \<Rightarrow>
             if e = 117 then
               (case hex4 (take 4 es) of
                  None \<Rightarrow> None
                | Some u \<Rightarrow> map_option (\<lambda>(r, rest). (u # r, rest)) (parse_chars (drop 4 es)))
             else
               (case unescape e of
                  None \<Rightarrow> None
                | Some x \<Rightarrow> map_option (\<lambda>(r, rest). (x # r, rest)) (parse_chars es)))
      else if c < 32 then None
      else map_option (\<lambda>(r, rest). (c # r, rest)) (parse_chars cs))"

definition digits_val :: "jsstr \<Rightarrow> int" where
  "digits_val ds = foldl (\<lambda>a c. a * 10 + (int c - 48)) 0 ds"

definition parse_number :: "jsstr \<Rightarrow> (json \<times> jsstr) option" where
  \<comment> \<open>\<open>-?(0|[1-9][0-9]*)(\.[0-9]+)?([eE][+-]?[0-9]+)?\<close>\<close>
  "parse_number s =
     (let minus = (case s of c # _ \<Rightarrow> c = 45 | [] \<Rightarrow> False);
          s1 = (if minus then drop 1 s else s);
          ip = (case s1 of c # cs \<Rightarrow> if c = 48 then [c] else takeWhile is_digit s1 | [] \<Rightarrow> []);
          s2 = drop (length ip) s1
      in if ip = [] then None
         else
           (let fp = (case s2 of c # cs \<Rightarrow> if c = 46 then Some (takeWhile is_digit cs) else None
                                | [] \<Rightarrow> None);
                s3 = (case fp of None \<Rightarrow> s2 | Some fd \<Rightarrow> drop (1 + length fd) s2);
                fd = (case fp of None \<Rightarrow> [] | Some fd \<Rightarrow> fd);
                m = (if minus then - digits_val (ip @ fd) else digits_val (ip @ fd))
            in if fp = Some [] then None
               else
                 (case s3 of
                    c # cs \<Rightarrow>
                      if c = 101 \<or> c = 69 then
                        (let neg = (case cs of x # _ \<Rightarrow> x = 45 | [] \<Rightarrow> False);
                             s4 = (case cs of x # xs \<Rightarrow> if x = 43 \<or> x = 45 then xs else cs
                                             | [] \<Rightarrow> cs);
                             ed = takeWhile is_digit s4
                         in if ed = [] then None
                            else Some (JNum m ((if neg then - digits_val ed else digits_val ed)
                                                 - int (length fd)),
                                       drop (length ed) s4))
                      else Some (JNum m (- int (length fd)), s3)
                  | [] \<Rightarrow> Some (JNum m (- int (length fd)), s3))))"

text \<open>
  The recursive descent over values, array elements and object members. The first
  argument bounds the depth of the calls; \<open>JSON_parse\<close> starts it at twice the length
  of the text, which no chain of calls exceeds, since two calls in a row consume a
  character (\<open>JSON_parse_bound_enough\<close> below: what any bound parses, this one does).
\<close>

fun parse_value :: "nat \<Rightarrow> jsstr \<Rightarrow> (json \<times> jsstr) option"
  and parse_elems :: "nat \<Rightarrow> jsstr \<Rightarrow> (json list \<times> jsstr) option"
  and parse_members :: "nat \<Rightarrow> jsstr \<Rightarrow> ((jsstr \<times> json) list \<times> jsstr) option" where
  "parse_value 0 s = None"
| "parse_value (Suc n) s =
     (case skip_ws s of
        [] \<Rightarrow> None
      | c # cs \<Rightarrow>
          if c = 123 then
            (case skip_ws cs of
               [] \<Rightarrow> None
             | x # r \<Rightarrow>
                 if x = 125 then Some (JObj [], r)
                 else map_option (\<lambda>(ms, rest). (JObj ms, rest)) (parse_members n cs))
          else if c = 91 then
            (case skip_ws cs of
               [] \<Rightarrow> None
             | x # r \<Rightarrow>
                 if x = 93 then Some (JArr [], r)
                 else map_option (\<lambda>(vs, rest). (JArr vs, rest)) (parse_elems n cs))
          else if c = 34 then map_option (\<lambda>(str, rest). (JStr str, rest)) (parse_chars cs)
          else if prefix (asc ''true'') (c # cs) then Some (JBool True, drop 4 (c # cs))
          else if prefix (asc ''false'') (c # cs) then Some (JBool False, drop 5 (c # cs))
          else if prefix (asc ''null'') (c # cs) then Some (JNull, drop 4 (c # cs))
          else parse_number (c # cs))"
| "parse_elems 0 s = None"
| "parse_elems (Suc n) s =
     (case parse_value n s of
        None \<Rightarrow> None
      | Some (v, r) \<Rightarrow>
          (case skip_ws r of
             [] \<Rightarrow> None
           | x # r' \<Rightarrow>
               if x = 44 then map_option (\<lambda>(vs, rest). (v # vs, rest)) (parse_elems n r')
               else if x = 93 then Some ([v], r')
               else None))"
| "parse_members 0 s = None"
| "parse_members (Suc n) s =
     (case skip_ws s of
        [] \<Rightarrow> None
      | q # cs \<Rightarrow>
          if q \<noteq> 34 then None
          else
            (case parse_chars cs of
               None \<Rightarrow> None
             | Some (k, r) \<Rightarrow>
                 (case skip_ws r of
                    [] \<Rightarrow> None
                  | col # r1 \<Rightarrow>
                      if col \<noteq> 58 then None
                      else
                        (case parse_value n r1 of
                           None \<Rightarrow> None
                         | Some (v, r2) \<Rightarrow>
                             (case skip_ws r2 of
                                [] \<Rightarrow> None
                              | x # r3 \<Rightarrow>
                                  if x = 44 then
                                    map_option (\<lambda>(ms, rest). ((k, v) # ms, rest))
                                      (parse_members n r3)
                                  else if x = 125 then Some ([(k, v)], r3)
                                  else None)))))"

definition JSON_parse :: "jsstr \<Rightarrow> json option" where
  \<comment> \<open>\<open>None\<close> is the SyntaxError that \<open>JSON.parse\<close> throws\<close>
  "JSON_parse s =
     (case parse_value (2 * length s + 2) s of
        None \<Rightarrow> None
      | Some (v, r) \<Rightarrow> if skip_ws r = [] then Some v else None)"

definition get_content :: "json \<Rightarrow> js_error + json option" where
  \<comment> \<open>the property read \<open>slide.content\<close>: \<open>Inr None\<close> is \<open>undefined\<close>, and reading a
      property of \<open>null\<close> throws; of duplicate members the last one counts\<close>
  "get_content slide =
     (case slide of
        JNull \<Rightarrow> Inl TypeError
      | JObj ms \<Rightarrow> Inr (map_of (rev ms) (asc ''content''))
      | _ \<Rightarrow> Inr None)"

definition num_is_zero :: "int \<Rightarrow> int \<Rightarrow> bool" where
  \<comment> \<open>whether the double nearest to \<open>m * 10 ^ e\<close> is zero: at most half the least subnormal\<close>
  "num_is_zero m e \<longleftrightarrow> m = 0 \<or> (e < 0 \<and> \<bar>m\<bar> * 2 ^ 1075 \<le> 10 ^ nat (- e))"

definition truthy :: "json \<Rightarrow> bool" where
  "truthy v =
     (case v of
        JNull \<Rightarrow> False
      | JBool b \<Rightarrow> b
      | JNum m e \<Rightarrow> \<not> num_is_zero m e
      | JStr s \<Rightarrow> s \<noteq> []
      | JArr _ \<Rightarrow> True
      | JObj _ \<Rightarrow> True)"

definition TOKEN :: jsstr where
  "TOKEN = asc ''---SLIDE_SEPARATOR---''"

datatype record_action = Skip | Emit jsstr

definition decode_record :: "jsstr \<Rightarrow> js_error + record_action" where
  \<comment> \<open>the body of the inner loop up to its \<open>continue\<close>: \<open>JSON.parse(slideJson)\<close>, then
      \<open>!slide.content || slide.content.trim() === '---SLIDE_SEPARATOR---'\<close>; a truthy
      content that is no string has no method \<open>trim\<close>, and the call throws\<close>
  "decode_record slideJson =
     (case JSON_parse slideJson of
        None \<Rightarrow> Inl SyntaxError
      | Some slide \<Rightarrow>
          (case get_content slide of
             Inl e \<Rightarrow> Inl e
           | Inr None \<Rightarrow> Inr Skip
           | Inr (Some c) \<Rightarrow>
               if \<not> truthy c then Inr Skip
               else
                 (case c of
                    JStr str \<Rightarrow> if trim str = TOKEN then Inr Skip else Inr (Emit str)
                  | _ \<Rightarrow> Inl TypeError)))"

section \<open>The stream decoder: \<open>new TextDecoder()\<close> with \<open>{ stream: true }\<close>\<close>

text \<open>
  The UTF-8 decoder of the Encoding Standard in its default error mode (a malformed
  sequence becomes U+FFFD). Its state outlives a call of \<open>decode\<close> with
  \<open>stream: true\<close>: the bytes of a character begun in one chunk are completed by the
  next. A leading U+FEFF is dropped once per stream. Scalar values leave as UTF-16.
\<close>

type_synonym byte = "8 word"

record utf8_decoder =
  code_point :: nat
  bytes_seen :: nat
  bytes_needed :: nat
  lower_boundary :: nat
  upper_boundary :: nat
  bom_seen :: bool

definition new_decoder :: utf8_decoder where
  "new_decoder =
     \<lparr>code_point = 0, bytes_seen = 0, bytes_needed = 0,
      lower_boundary = 128, upper_boundary = 191, bom_seen = False\<rparr>"

definition reset_sequence :: "utf8_decoder \<Rightarrow> utf8_decoder" where
  "reset_sequence d =
     d\<lparr>code_point := 0, bytes_seen := 0, bytes_needed := 0,
       lower_boundary := 128, upper_boundary := 191\<rparr>"

definition utf8_lead :: "utf8_decoder \<Rightarrow> nat \<Rightarrow> utf8_decoder \<times> nat list" where
  \<comment> \<open>a byte read while no sequence is open\<close>
  "utf8_lead d b =
     (if b \<le> 127 then (d, [b])
      else if 194 \<le> b \<and> b \<le> 223 then
        (d\<lparr>bytes_needed := 1, code_point := b - 192\<rparr>, [])
      else if 224 \<le> b \<and> b \<le> 239 then
        (d\<lparr>lower_boundary := (if b = 224 then 160 else lower_boundary d),
           upper_boundary := (if b = 237 then 159 else upper_boundary d),
           bytes_needed := 2, code_point := b - 224\<rparr>, [])
      else if 240 \<le> b \<and> b \<le> 244 then
        (d\<lparr>lower_boundary := (if b = 240 then 144 else lower_boundary d),
           upper_boundary := (if b = 244 then 143 else upper_boundary d),
           bytes_needed := 3, code_point := b - 240\<rparr>, [])
      else (d, [65533]))"

definition utf8_step :: "utf8_decoder \<Rightarrow> byte \<Rightarrow> utf8_decoder \<times> nat list" where
  \<comment> \<open>the decoder's handler on one byte: the new state and the scalar values emitted\<close>
  "utf8_step d byte =
     (let b = unat byte
      in if bytes_needed d = 0 then utf8_lead d b
         else if b < lower_boundary d \<or> upper_boundary d < b then
           (case utf8_lead (reset_sequence d) b of (d', out) \<Rightarrow> (d', 65533 # out))
         else
           (let d1 = d\<lparr>lower_boundary := 128, upper_boundary := 191,
                        code_point := code_point d * 64 + b mod 64,
                        bytes_seen := bytes_seen d + 1\<rparr>
            in if bytes_seen d1 \<noteq> bytes_needed d1 then (d1, [])
               else (reset_sequence d1, [code_point d1])))"

fun utf8_run :: "utf8_decoder \<Rightarrow> byte list \<Rightarrow> utf8_decoder \<times> nat list" where
  "utf8_run d [] = (d, [])"
| "utf8_run d (b # bs) =
     (case utf8_step d b of
        (d1, out1) \<Rightarrow> (case utf8_run d1 bs of (d2, out2) \<Rightarrow> (d2, out1 @ out2)))"

definition utf16 :: "nat \<Rightarrow> jsstr" where
  "utf16 cp =
     (if cp < 65536 then [cp]
      else [55296 + (cp - 65536) div 1024, 56320 + (cp - 65536) mod 1024])"

fun serialize :: "bool \<Rightarrow> nat list \<Rightarrow> bool \<times> jsstr" where
  \<comment> \<open>the output of one call, behind the byte order mark check\<close>
  "serialize seen [] = (seen, [])"
| "serialize seen (x # xs) =
     (if \<not> seen \<and> x = 65279 then serialize True xs
      else (case serialize True xs of (seen', out) \<Rightarrow> (seen', utf16 x @ out)))"

definition decode :: "utf8_decoder \<Rightarrow> byte list \<Rightarrow> utf8_decoder \<times> jsstr" where
  \<comment> \<open>\<open>decoder.decode(value, { stream: true })\<close>\<close>
  "decode d bytes =
     (case utf8_run d bytes of
        (d1, scalars) \<Rightarrow>
          (case serialize (bom_seen d1) scalars of
             (seen, text) \<Rightarrow> (d1\<lparr>bom_seen := seen\<rparr>, text)))"

section \<open>The streaming read loop of \<open>handleSubmit\<close>\<close>

definition RECORD_END :: jsstr where
  "RECORD_END = [LF, LF]"

text \<open>
  The result of a run: the slides in \<open>generatedSlides\<close> when the loop is left, and the
  exception that left it, if one did. An exception thrown in the loop body reaches the
  \<open>catch\<close> around the whole request; the slides appended before it stay in the state.
\<close>

type_synonym outcome = "js_error option \<times> slide list"

fun process_parts :: "jsstr list \<Rightarrow> slide list \<Rightarrow> outcome" where
  \<comment> \<open>the \<open>for\<close> loop over the complete parts, \<open>slides\<close> being \<open>generatedSlides\<close>\<close>
  "process_parts [] slides = (None, slides)"
| "process_parts (slideJson # rest) slides =
     (if slideJson = [] then process_parts rest slides
      else
        (case decode_record slideJson of
           Inl e \<Rightarrow> (Some e, slides)
         | Inr Skip \<Rightarrow> process_parts rest slides
         | Inr (Emit c) \<Rightarrow>
             process_parts rest (slides @ [parseSlide_gen c (length slides)])))"

fun read_loop :: "byte list list \<Rightarrow> utf8_decoder \<Rightarrow> jsstr \<Rightarrow> slide list \<Rightarrow> outcome" where
  \<comment> \<open>\<open>while (true)\<close> over the chunks the reader delivers until \<open>done\<close>\<close>
  "read_loop [] decoder accumulatedData slides = (None, slides)"
| "read_loop (value # chunks) decoder accumulatedData slides =
     (case decode decoder value of
        (decoder', text) \<Rightarrow>
          (let accumulated = accumulatedData @ text;
               parts = js_split RECORD_END accumulated
           in if length parts > 1 then
                (case process_parts (butlast parts) slides of
                   (Some e, slides') \<Rightarrow> (Some e, slides')
                 | (None, slides') \<Rightarrow> read_loop chunks decoder' (last parts) slides')
              else read_loop chunks decoder' accumulated slides))"

definition handleSubmit :: "byte list list \<Rightarrow> outcome" where
  \<comment> \<open>from \<open>setGeneratedSlides([])\<close> on, for the chunks of the response body\<close>
  "handleSubmit chunks = read_loop chunks new_decoder [] []"

section \<open>Re-hydration and text export\<close>

definition SEPARATOR :: jsstr where
  "SEPARATOR = [LF, LF] @ TOKEN @ [LF, LF]"

definition keep_block :: "jsstr \<Rightarrow> bool" where
  \<comment> \<open>\<open>slide => slide.trim() && slide.trim() !== "---SLIDE_SEPARATOR---"\<close>\<close>
  "keep_block s \<longleftrightarrow> trim s \<noteq> [] \<and> trim s \<noteq> TOKEN"

definition parsedSlides :: "jsstr \<Rightarrow> slide list" where
  \<comment> \<open>the constant \<open>parsedSlides\<close> of \<open>load\<close> in PresentationView.tsx\<close>
  "parsedSlides content_text =
     map (\<lambda>(idx, s). parseSlide_view s idx)
       (enumerate 0 (filter keep_block (js_split SEPARATOR content_text)))"

definition load :: "slide list \<Rightarrow> jsstr option \<Rightarrow> slide list" where
  \<comment> \<open>the state \<open>slides\<close> after \<open>load\<close> of PresentationView.tsx, from its value before
      and \<open>data.content\<close> (\<open>None\<close> for null or undefined):
      \<open>if (data.content) { ...; setSlides(parsedSlides) }\<close>; an empty string is falsy.
      A request that fails goes to the \<open>catch\<close> and leaves the slides as they are, too\<close>
  "load slides data_content =
     (case data_content of
        None \<Rightarrow> slides
      | Some content_text \<Rightarrow>
          if content_text = [] then slides else parsedSlides content_text)"

definition selectedSlides :: "jsstr \<Rightarrow> slide list" where
  \<comment> \<open>the constant \<open>slides\<close> of \<open>handleSelectPresentation\<close> in SignIn.tsx: the same
      expression, with the \<open>parseSlide\<close> of that file\<close>
  "selectedSlides content_text =
     map (\<lambda>(idx, s). parseSlide_gen s idx)
       (enumerate 0 (filter keep_block (js_split SEPARATOR content_text)))"

definition handleSelectPresentation :: "slide list \<Rightarrow> jsstr option \<Rightarrow> slide list" where
  \<comment> \<open>the state \<open>generatedSlides\<close> after \<open>handleSelectPresentation\<close> of SignIn.tsx:
      \<open>if (data.content) { ...; setGeneratedSlides(slides) }\<close>\<close>
  "handleSelectPresentation generatedSlides data_content =
     (case data_content of
        None \<Rightarrow> generatedSlides
      | Some content_text \<Rightarrow>
          if content_text = [] then generatedSlides else selectedSlides content_text)"

definition export_block :: "nat \<Rightarrow> slide \<Rightarrow> jsstr" where
  \<comment> \<open>\<open>`Slide ${i + 1}: ${slide.title}\n\n${slide.content}`\<close>\<close>
  "export_block i s =
     asc ''Slide '' @ digits (i + 1) @ asc '': '' @ title s @ [LF, LF] @ content s"

definition downloadAsTXT :: "slide list \<Rightarrow> jsstr" where
  \<comment> \<open>the text that \<open>downloadAsTXT\<close> puts in the file\<close>
  "downloadAsTXT slides =
     js_join SEPARATOR (map (\<lambda>(i, s). export_block i s) (enumerate 0 slides))"

section \<open>Auxiliary notions for the statements\<close>

definition derivatives_block :: jsstr where
  \<comment> \<open>the block of the four lines of the specification's example\<close>
  "derivatives_block =
     js_join [LF] [asc ''**Derivatives**'', asc ''- First point'', asc ''* Second point'',
                   BULLET # asc '' Third point'']"

definition content_record :: "jsstr \<Rightarrow> jsstr" where
  \<comment> \<open>the wire form of a record whose only member is \<open>content\<close>, for a string that
      needs no escapes\<close>
  \<open>content_record str = asc ''{"content":"'' @ str @ asc ''"}''\<close>

definition ascii_bytes :: "string \<Rightarrow> byte list" where
  "ascii_bytes s = map of_char s"

definition scalar_value :: "nat \<Rightarrow> bool" where
  \<comment> \<open>a Unicode scalar value: a code point that is no surrogate\<close>
  "scalar_value cp \<longleftrightarrow> cp < 1114112 \<and> \<not> (55296 \<le> cp \<and> cp \<le> 57343)"

definition utf8_encode :: "nat \<Rightarrow> byte list" where
  \<comment> \<open>UTF-8, as the producer of the stream writes a scalar value\<close>
  "utf8_encode cp =
     (if cp < 128 then [of_nat cp]
      else if cp < 2048 then [of_nat (192 + cp div 64), of_nat (128 + cp mod 64)]
      else if cp < 65536 then
        [of_nat (224 + cp div 4096), of_nat (128 + cp div 64 mod 64), of_nat (128 + cp mod 64)]
      else
        [of_nat (240 + cp div 262144), of_nat (128 + cp div 4096 mod 64),
         of_nat (128 + cp div 64 mod 64), of_nat (128 + cp mod 64)])"

definition idle :: "utf8_decoder \<Rightarrow> bool" where
  \<comment> \<open>between two characters: no sequence is open\<close>
  "idle d \<longleftrightarrow>
     code_point d = 0 \<and> bytes_seen d = 0 \<and> bytes_needed d = 0 \<and>
     lower_boundary d = 128 \<and> upper_boundary d = 191"

definition stream_text :: "byte list list \<Rightarrow> jsstr" where
  \<comment> \<open>the text of a whole stream, decoded in one piece\<close>
  "stream_text chunks = snd (decode new_decoder (concat chunks))"

definition frame :: "jsstr list \<Rightarrow> jsstr" where
  \<comment> \<open>records on the wire, each followed by the two newlines that end it\<close>
  "frame ps = concat (map (\<lambda>p. p @ RECORD_END) ps)"

definition well_framed :: "jsstr \<Rightarrow> bool" where
  \<comment> \<open>the first pair of newlines behind the start of \<open>p\<close> is the one that ends it\<close>
  "well_framed p \<longleftrightarrow> js_split RECORD_END (p @ RECORD_END) = [p, []]"

definition normal_title :: "jsstr \<Rightarrow> bool" where
  \<comment> \<open>one line, not empty, trimmed, and not ending in the marker \<open>**\<close>. The normalizers
      make such titles and others: the block of the lines \<open>"**Intro** "\<close> and \<open>"- a"\<close> gets
      the title \<open>Intro**\<close>, which another normalization strips of its stars\<close>
  "normal_title t \<longleftrightarrow> t \<noteq> [] \<and> LF \<notin> set t \<and> trim t = t \<and> \<not> suffix (asc ''**'') t"

definition normal_content :: "jsstr \<Rightarrow> bool" where
  \<comment> \<open>empty, or lines none of which is blank or has a bullet left to replace, without
      white space at the end: a condition under which another normalization leaves the
      content as it is (sufficient, not necessary)\<close>
  "normal_content c \<longleftrightarrow>
     c = [] \<or>
     (list_all (\<lambda>l. trim l \<noteq> [] \<and> canon_bullet l = l) (js_split [LF] c) \<and> \<not> is_ws (last c))"

definition export_heading :: "nat \<Rightarrow> jsstr \<Rightarrow> jsstr" where
  \<comment> \<open>the first line of an exported block: \<open>Slide ${i + 1}: ${slide.title}\<close>\<close>
  "export_heading i t = asc ''Slide '' @ digits (i + 1) @ asc '': '' @ t"

definition reparsed :: "nat \<Rightarrow> slide \<Rightarrow> slide" where
  \<comment> \<open>the slide at position \<open>i\<close> with the heading of its exported block as title\<close>
  "reparsed i s = \<lparr>title = export_heading i (title s), content = content s, index = i\<rparr>"

section \<open>Splitting and joining\<close>

declare digits.simps [simp del]

lemma js_split_not_Nil [simp]: "js_split sep s \<noteq> []"
  by (induction sep s rule: js_split.induct) (auto split: list.splits)

lemma js_split_LF_Cons:
  "js_split [LF] (c # cs) =
     (if c = LF then [] # js_split [LF] cs
      else (c # hd (js_split [LF] cs)) # tl (js_split [LF] cs))"
  by (cases "js_split [LF] cs") auto

lemma js_split_no_LF: "LF \<notin> set s \<Longrightarrow> js_split [LF] s = [s]"
  by (induction s) (auto simp: js_split_LF_Cons)

lemma js_split_line: "LF \<notin> set l \<Longrightarrow> js_split [LF] (l @ LF # rest) = l # js_split [LF] rest"
  by (induction l) (auto simp: js_split_LF_Cons)

lemma js_split_join_lines:
  "ls \<noteq> [] \<Longrightarrow> \<forall>l\<in>set ls. LF \<notin> set l \<Longrightarrow> js_split [LF] (js_join [LF] ls) = ls"
  by (induction "[LF]" ls rule: js_join.induct) (auto simp: js_split_no_LF js_split_line)

lemma js_split_lines_no_LF: "l \<in> set (js_split [LF] s) \<Longrightarrow> LF \<notin> set l"
proof (induction s arbitrary: l)
  case Nil
  then show ?case by simp
next
  case (Cons c cs)
  then show ?case
    by (cases "js_split [LF] cs") (auto simp: js_split_LF_Cons split: if_splits)
qed

section \<open>The normalizers\<close>

lemma slide_lines_no_LF: "l \<in> set (slide_lines t) \<Longrightarrow> LF \<notin> set l"
  by (auto simp: slide_lines_def dest: js_split_lines_no_LF)








lemma js_split_prefix: "sep \<noteq> [] \<Longrightarrow> js_split sep (sep @ rest) = [] # js_split sep rest"
  by (cases sep) simp_all

lemma js_split_no_prefix:
  "\<not> (sep \<noteq> [] \<and> prefix sep (c # cs)) \<Longrightarrow>
   js_split sep (c # cs) = (c # hd (js_split sep cs)) # tl (js_split sep cs)"
  by (cases "js_split sep cs") auto

declare js_split.simps(2) [simp del]

lemma js_join_Cons_Cons: "ps \<noteq> [] \<Longrightarrow> js_join sep (p # ps) = p @ sep @ js_join sep ps"
  by (cases ps) auto

lemma js_join_hd_Cons: "js_join sep ((c # p) # ps) = c # js_join sep (p # ps)"
  by (cases ps) auto

lemma js_join_split: "js_join sep (js_split sep s) = s"
proof (induction sep s rule: js_split.induct)
  case (1 sep)
  then show ?case by simp
next
  case (2 sep c cs)
  show ?case
  proof (cases "sep \<noteq> [] \<and> prefix sep (c # cs)")
    case True
    then obtain rest where rest: "c # cs = sep @ rest"
      by (auto simp: prefix_def)
    then have "drop (length sep) (c # cs) = rest"
      by simp
    with 2(1) True have "js_join sep (js_split sep rest) = rest"
      by simp
    then have "js_join sep (js_split sep (sep @ rest)) = sep @ rest"
      using True by (simp add: js_split_prefix js_join_Cons_Cons)
    then show ?thesis
      by (simp add: rest)
  next
    case False
    obtain p ps where R: "js_split sep cs = p # ps"
      by (cases "js_split sep cs") auto
    with 2(2) False have "js_join sep (p # ps) = cs"
      by simp
    with False R show ?thesis
      by (simp add: js_split_no_prefix js_join_hd_Cons)
  qed
qed

lemma js_split_single: "js_split sep s = [r] \<Longrightarrow> r = s"
  using js_join_split [of sep s] by simp

lemma js_split_short: "length s < length sep \<Longrightarrow> js_split sep s = [s]"
proof (induction s)
  case Nil
  then show ?case by simp
next
  case (Cons c cs)
  then have "\<not> prefix sep (c # cs)"
    by (auto dest: prefix_length_le)
  with Cons show ?case by (simp add: js_split_no_prefix)
qed

lemma js_split_append:
  "js_split sep (a @ b) = butlast (js_split sep a) @ js_split sep (last (js_split sep a) @ b)"
proof (induction sep a rule: js_split.induct)
  case (1 sep)
  then show ?case by simp
next
  case (2 sep c cs)
  show ?case
  proof (cases "sep \<noteq> [] \<and> prefix sep (c # cs)")
    case True
    then obtain rest where rest: "c # cs = sep @ rest"
      by (auto simp: prefix_def)
    then have "drop (length sep) (c # cs) = rest"
      by simp
    with 2(1) True have IH: "js_split sep (rest @ b) =
        butlast (js_split sep rest) @ js_split sep (last (js_split sep rest) @ b)"
      by simp
    have "js_split sep ((sep @ rest) @ b) =
        butlast (js_split sep (sep @ rest)) @ js_split sep (last (js_split sep (sep @ rest)) @ b)"
      using True IH js_split_prefix [of sep "rest @ b"] by (simp add: js_split_prefix)
    then show ?thesis
      by (simp only: rest)
  next
    case False
    note nopre = False
    obtain p ps where R: "js_split sep cs = p # ps"
      by (cases "js_split sep cs") auto
    have A: "js_split sep (c # cs) = (c # p) # ps"
      using nopre R by (simp add: js_split_no_prefix)
    show ?thesis
    proof (cases "sep \<noteq> [] \<and> prefix sep ((c # cs) @ b)")
      case True
      have "length (c # cs) < length sep"
      proof (rule ccontr)
        assume "\<not> length (c # cs) < length sep"
        then have "length sep \<le> length (c # cs)" by simp
        with True have "prefix sep (c # cs)"
          by (metis prefix_append prefix_length_prefix prefix_order.order_refl) 
        with nopre True show False by simp
      qed
      then have "js_split sep (c # cs) = [c # cs]"
        by (rule js_split_short)
      then show ?thesis by simp
    next
      case False
      have IH: "js_split sep (cs @ b) = butlast (p # ps) @ js_split sep (last (p # ps) @ b)"
        using 2(2) nopre R by simp
      have B: "js_split sep ((c # cs) @ b) =
          (c # hd (js_split sep (cs @ b))) # tl (js_split sep (cs @ b))"
        using False by (simp add: js_split_no_prefix)
      show ?thesis
      proof (cases ps)
        case Nil
        with A have "c # p = c # cs"
          by (auto dest: js_split_single)
        with A Nil show ?thesis by simp
      next
        case (Cons q qs)
        with IH A B show ?thesis by simp
      qed
    qed
  qed
qed

lemma js_split_last: "js_split sep (last (js_split sep a)) = [last (js_split sep a)]"
proof -
  define xs where "xs = js_split sep a"
  have e1: "xs = butlast xs @ js_split sep (last xs)"
    unfolding xs_def using js_split_append [of sep a "[]"] by simp
  have e2: "xs = butlast xs @ [last xs]"
    unfolding xs_def by simp
  from e1 e2 have "butlast xs @ js_split sep (last xs) = butlast xs @ [last xs]"
    by metis
  then show ?thesis
    unfolding xs_def by (simp only: same_append_eq)
qed

section \<open>The decoder over chunks\<close>

lemma utf8_run_append:
  "utf8_run d (a @ b) =
     (case utf8_run d a of (d1, o1) \<Rightarrow> (case utf8_run d1 b of (d2, o2) \<Rightarrow> (d2, o1 @ o2)))"
  by (induction a arbitrary: d) (auto split: prod.splits)

lemma serialize_append:
  "serialize s (a @ b) =
     (case serialize s a of (s1, t1) \<Rightarrow> (case serialize s1 b of (s2, t2) \<Rightarrow> (s2, t1 @ t2)))"
  by (induction a arbitrary: s) (auto split: prod.splits)

lemma utf8_lead_bom:
  "utf8_lead (d\<lparr>bom_seen := x\<rparr>) b = (fst (utf8_lead d b)\<lparr>bom_seen := x\<rparr>, snd (utf8_lead d b))"
  by (simp add: utf8_lead_def)

lemma utf8_step_bom:
  "utf8_step (d\<lparr>bom_seen := x\<rparr>) b = (fst (utf8_step d b)\<lparr>bom_seen := x\<rparr>, snd (utf8_step d b))"
  by (simp add: utf8_step_def utf8_lead_def reset_sequence_def Let_def split: prod.splits)

lemma utf8_run_bom:
  "utf8_run (d\<lparr>bom_seen := x\<rparr>) bs = (fst (utf8_run d bs)\<lparr>bom_seen := x\<rparr>, snd (utf8_run d bs))"
proof (induction bs arbitrary: d)
  case Nil
  then show ?case by simp
next
  case (Cons b bs)
  show ?case
    by (simp add: utf8_step_bom [where d = d and x = x and b = b] Cons split: prod.splits)
qed

lemma utf8_step_keeps_bom: "bom_seen (fst (utf8_step d b)) = bom_seen d"
  by (simp add: utf8_step_def utf8_lead_def reset_sequence_def Let_def split: prod.splits)

lemma utf8_run_keeps_bom: "bom_seen (fst (utf8_run d bs)) = bom_seen d"
proof (induction bs arbitrary: d)
  case Nil
  then show ?case by simp
next
  case (Cons b bs)
  obtain d1 o1 where S: "utf8_step d b = (d1, o1)" by force
  obtain d2 o2 where R: "utf8_run d1 bs = (d2, o2)" by force
  have "bom_seen d2 = bom_seen d1"
    using Cons [of d1] R by simp
  moreover have "bom_seen d1 = bom_seen d"
    using utf8_step_keeps_bom [of d b] S by simp
  ultimately show ?case
    by (simp add: S R)
qed

lemma decode_append:
  "decode d (a @ b) =
     (case decode d a of (d1, t1) \<Rightarrow> (case decode d1 b of (d2, t2) \<Rightarrow> (d2, t1 @ t2)))"
proof -
  obtain d1 o1 where A: "utf8_run d a = (d1, o1)" by force
  obtain d2 o2 where B: "utf8_run d1 b = (d2, o2)" by force
  obtain s1 t1 where S1: "serialize (bom_seen d) o1 = (s1, t1)" by force
  obtain s2 t2 where S2: "serialize s1 o2 = (s2, t2)" by force
  have bd1: "bom_seen d1 = bom_seen d"
    using utf8_run_keeps_bom [of d a] A by simp
  have bd2: "bom_seen d2 = bom_seen d"
    using utf8_run_keeps_bom [of d1 b] B bd1 by simp
  have L: "decode d (a @ b) = (d2\<lparr>bom_seen := s2\<rparr>, t1 @ t2)"
    by (simp add: decode_def utf8_run_append A B serialize_append bd2 S1 S2)
  have R1: "decode d a = (d1\<lparr>bom_seen := s1\<rparr>, t1)"
    by (simp add: decode_def A bd1 S1)
  have R2: "decode (d1\<lparr>bom_seen := s1\<rparr>) b = (d2\<lparr>bom_seen := s2\<rparr>, t2)"
    by (simp add: decode_def utf8_run_bom [where d = d1 and x = s1 and bs = b] B S2)
  show ?thesis
    by (simp add: L R1 R2)
qed

lemma decode_Nil: "decode d [] = (d, [])"
  by (simp add: decode_def)

section \<open>Decoding what UTF-8 encodes\<close>

lemma mod64_offset: "(128 + (r::nat) mod 64) mod 64 = r mod 64"
  using mod_mult_self4 [of 64 2 "r mod 64"] by simp
lemma join2: "(cp::nat) div 64 * 64 + (128 + cp mod 64) mod 64 = cp"
  by (simp add: mod64_offset)
lemma join3: "(cp::nat) < 65536 \<Longrightarrow> (cp div 4096 * 64 + cp div 64 mod 64) * 64 + cp mod 64 = cp"
proof -
  have "cp div 64 = (cp div 64 div 64) * 64 + cp div 64 mod 64" by simp
  moreover have "cp div 64 div 64 = cp div 4096" by (simp add: div_mult2_eq)
  ultimately have "cp div 4096 * 64 + cp div 64 mod 64 = cp div 64" by simp
  then show ?thesis by simp
qed
lemma join4: "((cp::nat) div 262144 * 64 + cp div 4096 mod 64) * 64 + cp div 64 mod 64 = cp div 64"
proof -
  have "cp div 4096 = (cp div 4096 div 64) * 64 + cp div 4096 mod 64" by simp
  moreover have "cp div 4096 div 64 = cp div 262144" by (simp add: div_mult2_eq)
  ultimately have a: "cp div 262144 * 64 + cp div 4096 mod 64 = cp div 4096" by simp
  have "cp div 64 = (cp div 64 div 64) * 64 + cp div 64 mod 64" by simp
  moreover have "cp div 64 div 64 = cp div 4096" by (simp add: div_mult2_eq)
  ultimately have "cp div 4096 * 64 + cp div 64 mod 64 = cp div 64" by simp
  with a show ?thesis by simp
qed


lemma unat_byte: "n < 256 \<Longrightarrow> unat (of_nat n :: byte) = n"
  by (simp add: unat_of_nat)

lemma step_ascii: "idle d \<Longrightarrow> unat byte = b \<Longrightarrow> b \<le> 127 \<Longrightarrow> utf8_step d byte = (d, [b])"
  by (simp add: utf8_step_def utf8_lead_def idle_def)

lemma step_lead:
  assumes "idle d" and "unat byte = b"
  shows "194 \<le> b \<Longrightarrow> b \<le> 223 \<Longrightarrow>
      utf8_step d byte = (d\<lparr>bytes_needed := 1, code_point := b - 192\<rparr>, [])"
    and "224 \<le> b \<Longrightarrow> b \<le> 239 \<Longrightarrow>
      utf8_step d byte =
        (d\<lparr>lower_boundary := (if b = 224 then 160 else 128),
           upper_boundary := (if b = 237 then 159 else 191),
           bytes_needed := 2, code_point := b - 224\<rparr>, [])"
    and "240 \<le> b \<Longrightarrow> b \<le> 244 \<Longrightarrow>
      utf8_step d byte =
        (d\<lparr>lower_boundary := (if b = 240 then 144 else 128),
           upper_boundary := (if b = 244 then 143 else 191),
           bytes_needed := 3, code_point := b - 240\<rparr>, [])"
  using assms by (simp_all add: utf8_step_def utf8_lead_def idle_def)

lemma step_middle:
  assumes "unat byte = b" and "bytes_needed d \<noteq> 0"
    and "lower_boundary d \<le> b" and "b \<le> upper_boundary d"
    and "bytes_seen d + 1 \<noteq> bytes_needed d"
  shows "utf8_step d byte =
     (d\<lparr>lower_boundary := 128, upper_boundary := 191,
        code_point := code_point d * 64 + b mod 64,
        bytes_seen := bytes_seen d + 1\<rparr>, [])"
  using assms by (simp add: utf8_step_def Let_def)

lemma step_final:
  assumes "unat byte = b" and "bytes_needed d \<noteq> 0"
    and "lower_boundary d \<le> b" and "b \<le> upper_boundary d"
    and "bytes_seen d + 1 = bytes_needed d"
  shows "utf8_step d byte =
     (reset_sequence d, [code_point d * 64 + b mod 64])"
  using assms by (simp add: utf8_step_def Let_def reset_sequence_def)

lemma reset_idle: "idle d0 \<Longrightarrow>
  reset_sequence (d0\<lparr>lower_boundary := l, upper_boundary := u, bytes_needed := m,
     code_point := c\<rparr>) = d0"
  "idle d0 \<Longrightarrow>
  reset_sequence (d0\<lparr>bytes_needed := m, code_point := c\<rparr>) = d0"
  "idle d0 \<Longrightarrow>
  reset_sequence (d0\<lparr>lower_boundary := l, upper_boundary := u, bytes_needed := m,
     code_point := c, lower_boundary := l', upper_boundary := u', code_point := c',
     bytes_seen := n\<rparr>) = d0"
  by (cases d0; simp add: idle_def reset_sequence_def)+

lemma decode_one_byte:
  assumes "idle d" and "cp < 128"
  shows "utf8_run d (utf8_encode cp) = (d, [cp])"
proof -
  have "unat (of_nat cp :: byte) = cp"
    using assms(2) by (intro unat_byte) simp
  from step_ascii [OF assms(1) this] assms(2) show ?thesis
    by (simp add: utf8_encode_def)
qed

lemma decode_two_bytes:
  assumes "idle d" and "128 \<le> cp" and "cp < 2048"
  shows "utf8_run d (utf8_encode cp) = (d, [cp])"
proof -
  have b1: "unat (of_nat (192 + cp div 64) :: byte) = 192 + cp div 64"
    using assms(3) by (intro unat_byte) simp
  have b2: "unat (of_nat (128 + cp mod 64) :: byte) = 128 + cp mod 64"
    by (intro unat_byte) simp
  define d1 where "d1 = d\<lparr>bytes_needed := 1, code_point := cp div 64\<rparr>"
  have s1: "utf8_step d (of_nat (192 + cp div 64)) = (d1, [])"
    using step_lead(1) [OF assms(1) b1] assms(2,3) by (simp add: d1_def)
  have "utf8_step d1 (of_nat (128 + cp mod 64)) =
      (reset_sequence d1, [code_point d1 * 64 + (128 + cp mod 64) mod 64])"
    using assms(1) by (intro step_final [OF b2]) (simp_all add: d1_def idle_def)
  moreover have "code_point d1 * 64 + (128 + cp mod 64) mod 64 = cp"
    unfolding d1_def by (simp add: join2)
  moreover have "reset_sequence d1 = d"
    unfolding d1_def by (rule reset_idle(2) [OF assms(1)])
  ultimately have s2: "utf8_step d1 (of_nat (128 + cp mod 64)) = (d, [cp])"
    by simp
  have "utf8_encode cp = [of_nat (192 + cp div 64), of_nat (128 + cp mod 64)]"
    using assms(2,3) unfolding utf8_encode_def by (simp del: of_nat_add)
  then show ?thesis
    by (simp only: utf8_run.simps s1 s2 prod.case append_Nil append_Nil2)
qed


lemma div64_split: "(cp::nat) div 64 = cp div 4096 * 64 + cp div 64 mod 64"
proof -
  have "cp div 64 = (cp div 64 div 64) * 64 + cp div 64 mod 64" by simp
  moreover have "cp div 64 div 64 = cp div 4096" by (simp add: div_mult2_eq)
  ultimately show ?thesis by simp
qed

lemma div4096_split: "(cp::nat) div 4096 = cp div 262144 * 64 + cp div 4096 mod 64"
proof -
  have "cp div 4096 = (cp div 4096 div 64) * 64 + cp div 4096 mod 64" by simp
  moreover have "cp div 4096 div 64 = cp div 262144" by (simp add: div_mult2_eq)
  ultimately show ?thesis by simp
qed

lemma second_of_three_low: "2048 \<le> (cp::nat) \<Longrightarrow> cp div 4096 = 0 \<Longrightarrow> 32 \<le> cp div 64 mod 64"
proof -
  assume a: "2048 \<le> cp" and b: "cp div 4096 = 0"
  from a have "2048 div 64 \<le> cp div 64" by (rule div_le_mono)
  then have "32 \<le> cp div 64" by simp
  with div64_split [of cp] b show ?thesis by simp
qed

lemma second_of_three_high: "(cp::nat) < 55296 \<Longrightarrow> cp div 4096 = 13 \<Longrightarrow> cp div 64 mod 64 < 32"
proof -
  assume a: "cp < 55296" and b: "cp div 4096 = 13"
  from a have "cp div 64 < 864" by (simp add: less_mult_imp_div_less)
  with div64_split [of cp] b show ?thesis by simp
qed

lemma second_of_four_low: "65536 \<le> (cp::nat) \<Longrightarrow> cp div 262144 = 0 \<Longrightarrow> 16 \<le> cp div 4096 mod 64"
proof -
  assume a: "65536 \<le> cp" and b: "cp div 262144 = 0"
  from a have "65536 div 4096 \<le> cp div 4096" by (rule div_le_mono)
  then have "16 \<le> cp div 4096" by simp
  with div4096_split [of cp] b show ?thesis by simp
qed

lemma second_of_four_high: "(cp::nat) < 1114112 \<Longrightarrow> cp div 262144 = 4 \<Longrightarrow> cp div 4096 mod 64 < 16"
proof -
  assume a: "cp < 1114112" and b: "cp div 262144 = 4"
  from a have "cp div 4096 < 272" by (simp add: less_mult_imp_div_less)
  with div4096_split [of cp] b show ?thesis by simp
qed

lemma decode_three_bytes:
  assumes "idle d" and "2048 \<le> cp" and "cp < 65536" and "\<not> (55296 \<le> cp \<and> cp \<le> 57343)"
  shows "utf8_run d (utf8_encode cp) = (d, [cp])"
proof -
  have q: "cp div 4096 < 16"
    using assms(3) by (simp add: less_mult_imp_div_less)
  have b1: "unat (of_nat (224 + cp div 4096) :: byte) = 224 + cp div 4096"
    using q by (intro unat_byte) simp
  have b2: "unat (of_nat (128 + cp div 64 mod 64) :: byte) = 128 + cp div 64 mod 64"
    by (intro unat_byte) simp
  have b3: "unat (of_nat (128 + cp mod 64) :: byte) = 128 + cp mod 64"
    by (intro unat_byte) simp
  define d1 where "d1 = d\<lparr>lower_boundary := (if 224 + cp div 4096 = 224 then 160 else 128),
      upper_boundary := (if 224 + cp div 4096 = 237 then 159 else 191),
      bytes_needed := 2, code_point := cp div 4096\<rparr>"
  define d2 where "d2 = d1\<lparr>lower_boundary := 128, upper_boundary := 191,
      code_point := code_point d1 * 64 + (128 + cp div 64 mod 64) mod 64,
      bytes_seen := bytes_seen d1 + 1\<rparr>"
  have s1: "utf8_step d (of_nat (224 + cp div 4096)) = (d1, [])"
    using step_lead(2) [OF assms(1) b1] q by (simp add: d1_def)
  have low: "lower_boundary d1 \<le> 128 + cp div 64 mod 64"
    using second_of_three_low [OF assms(2)] by (simp add: d1_def)
  have high: "128 + cp div 64 mod 64 \<le> upper_boundary d1"
  proof (cases "cp div 4096 = 13")
    case True
    have "cp < 55296"
    proof (rule ccontr)
      assume "\<not> cp < 55296"
      with assms(4) have "57344 \<le> cp" by simp
      then have "57344 div 4096 \<le> cp div 4096" by (rule div_le_mono)
      with True show False by simp
    qed
    from second_of_three_high [OF this True] True show ?thesis
      by (simp add: d1_def)
  next
    case False
    then show ?thesis
      by (simp add: d1_def)
  qed
  have s2: "utf8_step d1 (of_nat (128 + cp div 64 mod 64)) = (d2, [])"
    unfolding d2_def using assms(1)
    by (intro step_middle [OF b2 _ low high]) (simp_all add: d1_def idle_def)
  have "utf8_step d2 (of_nat (128 + cp mod 64)) =
      (reset_sequence d2, [code_point d2 * 64 + (128 + cp mod 64) mod 64])"
    using assms(1) by (intro step_final [OF b3]) (simp_all add: d2_def d1_def idle_def)
  moreover have "code_point d2 * 64 + (128 + cp mod 64) mod 64 = cp"
  proof -
    have "code_point d2 = cp div 4096 * 64 + cp div 64 mod 64"
      by (simp add: d2_def d1_def mod64_offset)
    then show ?thesis
      by (simp only: mod64_offset join3 [OF assms(3)])
  qed
  moreover have "reset_sequence d2 = d"
    unfolding d2_def d1_def using assms(1) by (cases d) (simp add: idle_def reset_sequence_def)
  ultimately have s3: "utf8_step d2 (of_nat (128 + cp mod 64)) = (d, [cp])"
    by simp
  have "utf8_encode cp =
      [of_nat (224 + cp div 4096), of_nat (128 + cp div 64 mod 64), of_nat (128 + cp mod 64)]"
    using assms(2,3) unfolding utf8_encode_def by (simp del: of_nat_add)
  then show ?thesis
    by (simp only: utf8_run.simps s1 s2 s3 prod.case append_Nil append_Nil2)
qed

lemma decode_four_bytes:
  assumes "idle d" and "65536 \<le> cp" and "cp < 1114112"
  shows "utf8_run d (utf8_encode cp) = (d, [cp])"
proof -
  have q: "cp div 262144 < 5"
    using assms(3) by (simp add: less_mult_imp_div_less)
  have b1: "unat (of_nat (240 + cp div 262144) :: byte) = 240 + cp div 262144"
    using q by (intro unat_byte) simp
  have b2: "unat (of_nat (128 + cp div 4096 mod 64) :: byte) = 128 + cp div 4096 mod 64"
    by (intro unat_byte) simp
  have b3: "unat (of_nat (128 + cp div 64 mod 64) :: byte) = 128 + cp div 64 mod 64"
    by (intro unat_byte) simp
  have b4: "unat (of_nat (128 + cp mod 64) :: byte) = 128 + cp mod 64"
    by (intro unat_byte) simp
  define d1 where "d1 = d\<lparr>lower_boundary := (if 240 + cp div 262144 = 240 then 144 else 128),
      upper_boundary := (if 240 + cp div 262144 = 244 then 143 else 191),
      bytes_needed := 3, code_point := cp div 262144\<rparr>"
  define d2 where "d2 = d1\<lparr>lower_boundary := 128, upper_boundary := 191,
      code_point := code_point d1 * 64 + (128 + cp div 4096 mod 64) mod 64,
      bytes_seen := bytes_seen d1 + 1\<rparr>"
  define d3 where "d3 = d2\<lparr>lower_boundary := 128, upper_boundary := 191,
      code_point := code_point d2 * 64 + (128 + cp div 64 mod 64) mod 64,
      bytes_seen := bytes_seen d2 + 1\<rparr>"
  have s1: "utf8_step d (of_nat (240 + cp div 262144)) = (d1, [])"
    using step_lead(3) [OF assms(1) b1] q by (simp add: d1_def)
  have low: "lower_boundary d1 \<le> 128 + cp div 4096 mod 64"
    using second_of_four_low [OF assms(2)] by (simp add: d1_def)
  have high: "128 + cp div 4096 mod 64 \<le> upper_boundary d1"
  proof (cases "cp div 262144 = 4")
    case True
    from second_of_four_high [OF assms(3) True] True show ?thesis
      by (simp add: d1_def)
  next
    case False
    have "cp div 4096 mod 64 < 64"
      by simp
    with False show ?thesis
      by (simp add: d1_def)
  qed
  have s2: "utf8_step d1 (of_nat (128 + cp div 4096 mod 64)) = (d2, [])"
    unfolding d2_def using assms(1)
    by (intro step_middle [OF b2 _ low high]) (simp_all add: d1_def idle_def)
  have s3: "utf8_step d2 (of_nat (128 + cp div 64 mod 64)) = (d3, [])"
    unfolding d3_def using assms(1)
    by (intro step_middle [OF b3]) (simp_all add: d2_def d1_def idle_def)
  have "utf8_step d3 (of_nat (128 + cp mod 64)) =
      (reset_sequence d3, [code_point d3 * 64 + (128 + cp mod 64) mod 64])"
    using assms(1) by (intro step_final [OF b4]) (simp_all add: d3_def d2_def d1_def idle_def)
  moreover have "code_point d3 * 64 + (128 + cp mod 64) mod 64 = cp"
  proof -
    have "code_point d3 = (cp div 262144 * 64 + cp div 4096 mod 64) * 64 + cp div 64 mod 64"
      by (simp add: d3_def d2_def d1_def mod64_offset)
    then have "code_point d3 = cp div 64"
      by (simp only: join4)
    then show ?thesis
      by (simp only: mod64_offset) simp
  qed
  moreover have "reset_sequence d3 = d"
    unfolding d3_def d2_def d1_def using assms(1)
    by (cases d) (simp add: idle_def reset_sequence_def)
  ultimately have s4: "utf8_step d3 (of_nat (128 + cp mod 64)) = (d, [cp])"
    by simp
  have "utf8_encode cp =
      [of_nat (240 + cp div 262144), of_nat (128 + cp div 4096 mod 64),
       of_nat (128 + cp div 64 mod 64), of_nat (128 + cp mod 64)]"
    using assms(2,3) unfolding utf8_encode_def by (simp del: of_nat_add)
  then show ?thesis
    by (simp only: utf8_run.simps s1 s2 s3 s4 prod.case append_Nil append_Nil2)
qed

lemma decode_scalar_value:
  assumes "idle d" and "scalar_value cp"
  shows "utf8_run d (utf8_encode cp) = (d, [cp])"
proof -
  consider "cp < 128" | "128 \<le> cp" "cp < 2048" | "2048 \<le> cp" "cp < 65536" | "65536 \<le> cp"
    by linarith
  then show ?thesis
  proof cases
    case 1
    with assms(1) show ?thesis by (rule decode_one_byte)
  next
    case 2
    with assms(1) show ?thesis by (rule decode_two_bytes)
  next
    case 3
    with assms show ?thesis by (intro decode_three_bytes) (simp_all add: scalar_value_def)
  next
    case 4
    with assms show ?thesis by (intro decode_four_bytes) (simp_all add: scalar_value_def)
  qed
qed

lemma decode_scalar_values:
  "idle d \<Longrightarrow> list_all scalar_value cps \<Longrightarrow>
   utf8_run d (concat (map utf8_encode cps)) = (d, cps)"
  by (induction cps) (simp_all add: utf8_run_append decode_scalar_value)

lemma serialize_seen: "serialize True cps = (True, concat (map utf16 cps))"
  by (induction cps) simp_all

lemma serialize_no_bom:
  "cps = [] \<or> hd cps \<noteq> 65279 \<Longrightarrow> snd (serialize False cps) = concat (map utf16 cps)"
  by (cases cps) (simp_all add: serialize_seen)

lemma idle_new_decoder: "idle new_decoder"
  by (simp add: idle_def new_decoder_def)

lemma stream_text_utf8:
  assumes "list_all scalar_value cps" and "cps = [] \<or> hd cps \<noteq> 65279"
    and "concat chunks = concat (map utf8_encode cps)"
  shows "stream_text chunks = concat (map utf16 cps)"
proof -
  have "utf8_run new_decoder (concat chunks) = (new_decoder, cps)"
    using decode_scalar_values [OF idle_new_decoder assms(1)] assms(3) by simp
  then have "snd (decode new_decoder (concat chunks)) = snd (serialize False cps)"
    by (simp add: decode_def new_decoder_def split: prod.splits)
  with serialize_no_bom [OF assms(2)] show ?thesis
    by (simp add: stream_text_def)
qed

section \<open>The read loop\<close>

lemma process_parts_append:
  "process_parts (xs @ ys) sl =
     (case process_parts xs sl of
        (Some e, sl') \<Rightarrow> (Some e, sl')
      | (None, sl') \<Rightarrow> process_parts ys sl')"
  by (induction xs sl rule: process_parts.induct)
     (auto split: sum.splits record_action.splits prod.splits option.splits)

lemma read_loop_eq:
  "js_split RECORD_END acc = [acc] \<Longrightarrow>
   read_loop chunks d acc sl =
     process_parts (butlast (js_split RECORD_END (acc @ snd (decode d (concat chunks))))) sl"
proof (induction chunks arbitrary: d acc sl)
  case Nil
  then show ?case by (simp add: decode_Nil)
next
  case (Cons v chunks)
  obtain d' tx where D: "decode d v = (d', tx)" by force
  obtain d2 t2 where D2: "decode d' (concat chunks) = (d2, t2)" by force
  have whole: "snd (decode d (v @ concat chunks)) = tx @ t2"
    by (simp add: decode_append D D2)
  define parts where "parts = js_split RECORD_END (acc @ tx)"
  have parts_ne: "parts \<noteq> []"
    by (simp add: parts_def)
  have split_all: "js_split RECORD_END (acc @ tx @ t2) =
      butlast parts @ js_split RECORD_END (last parts @ t2)"
    using js_split_append [of RECORD_END "acc @ tx" t2] by (simp add: parts_def)
  have bl: "butlast (js_split RECORD_END (acc @ tx @ t2)) =
      butlast parts @ butlast (js_split RECORD_END (last parts @ t2))"
    by (simp add: split_all butlast_append)
  have last_ok: "js_split RECORD_END (last parts) = [last parts]"
    unfolding parts_def by (rule js_split_last)
  show ?case
  proof (cases "length parts > 1")
    case True
    obtain r sl' where P: "process_parts (butlast parts) sl = (r, sl')" by force
    show ?thesis
    proof (cases r)
      case None
      have "read_loop (v # chunks) d acc sl = read_loop chunks d' (last parts) sl'"
        using True P None by (simp add: D parts_def [symmetric] Let_def)
      also have "\<dots> = process_parts (butlast (js_split RECORD_END (last parts @ t2))) sl'"
        using Cons.IH [OF last_ok, of d' sl'] by (simp add: D2)
      also have "\<dots> = process_parts (butlast (js_split RECORD_END (acc @ snd (decode d (concat (v # chunks)))))) sl"
        by (simp add: whole bl process_parts_append P None)
      finally show ?thesis .
    next
      case (Some e)
      have "read_loop (v # chunks) d acc sl = (Some e, sl')"
        using True P Some by (simp add: D parts_def [symmetric] Let_def)
      also have "\<dots> = process_parts (butlast (js_split RECORD_END (acc @ snd (decode d (concat (v # chunks)))))) sl"
        by (simp add: whole bl process_parts_append P Some)
      finally show ?thesis .
    qed
  next
    case False
    with parts_ne have "length parts = 1"
      by (cases parts) auto
    then obtain x where X: "parts = [x]"
      by (cases parts) auto
    then have xeq: "x = acc @ tx"
      unfolding parts_def by (rule js_split_single)
    have "read_loop (v # chunks) d acc sl = read_loop chunks d' (acc @ tx) sl"
      using False by (simp add: D parts_def [symmetric] Let_def)
    also have "\<dots> = process_parts (butlast (js_split RECORD_END ((acc @ tx) @ t2))) sl"
      using Cons.IH [of "acc @ tx" d' sl] X xeq by (simp add: parts_def D2)
    also have "\<dots> = process_parts (butlast (js_split RECORD_END (acc @ snd (decode d (concat (v # chunks)))))) sl"
      by (simp add: whole)
    finally show ?thesis .
  qed
qed

lemma handleSubmit_eq:
  "handleSubmit chunks = process_parts (butlast (js_split RECORD_END (stream_text chunks))) []"
  using read_loop_eq [of "[]" chunks new_decoder "[]"]
  by (simp add: handleSubmit_def stream_text_def)

section \<open>Records on the wire\<close>

lemma well_framed_no_LF: "LF \<notin> set p \<Longrightarrow> well_framed p"
proof (induction p)
  case Nil
  have "js_split RECORD_END (RECORD_END @ []) = [] # js_split RECORD_END []"
    by (rule js_split_prefix) (simp add: RECORD_END_def)
  then show ?case
    by (simp add: well_framed_def)
next
  case (Cons c cs)
  then have "\<not> prefix RECORD_END (c # cs @ RECORD_END)"
    by (simp add: RECORD_END_def)
  with Cons show ?case
    by (simp add: well_framed_def js_split_no_prefix)
qed

lemma js_split_frame:
  "\<forall>p\<in>set ps. well_framed p \<Longrightarrow>
   js_split RECORD_END (frame ps @ r) = ps @ js_split RECORD_END r"
proof (induction ps)
  case Nil
  then show ?case by (simp add: frame_def)
next
  case (Cons p ps)
  then have wf: "js_split RECORD_END (p @ RECORD_END) = [p, []]"
    by (simp add: well_framed_def)
  have "frame (p # ps) @ r = (p @ RECORD_END) @ (frame ps @ r)"
    by (simp add: frame_def)
  then have "js_split RECORD_END (frame (p # ps) @ r) =
      butlast [p, []] @ js_split RECORD_END (last [p, []] @ frame ps @ r)"
    using js_split_append [of RECORD_END "p @ RECORD_END" "frame ps @ r"] wf by simp
  with Cons show ?case by simp
qed

lemma handleSubmit_framed:
  assumes "stream_text chunks = frame ps @ r"
    and "\<forall>p\<in>set ps. well_framed p"
    and "js_split RECORD_END r = [r]"
  shows "handleSubmit chunks = process_parts ps []"
  using assms by (simp add: handleSubmit_eq js_split_frame butlast_append)

section \<open>The depth bound of the parser\<close>

lemma skip_ws_Cons: "skip_ws s = c # cs \<Longrightarrow> length cs < length s"
proof -
  assume "skip_ws s = c # cs"
  then have "length (dropWhile json_ws s) = Suc (length cs)"
    by (simp add: skip_ws_def)
  moreover have "length (dropWhile json_ws s) \<le> length s"
    by (rule length_dropWhile_le)
  ultimately show ?thesis by simp
qed

lemma parse_chars_shorter: "parse_chars s = Some (str, r) \<Longrightarrow> length r < length s"
proof (induction s arbitrary: str r rule: parse_chars.induct)
  case 1
  then show ?case by simp
next
  case (2 c cs)
  show ?case
  proof (cases "c = 34")
    case True
    with 2(4) show ?thesis by simp
  next
    case n34: False
    show ?thesis
    proof (cases "c = 92")
      case True
      with n34 2(4) obtain e es where cs: "cs = e # es"
        by (cases cs) auto
      show ?thesis
      proof (cases "e = 117")
        case e: True
        with True n34 cs 2(4) obtain u where u: "hex4 (take 4 es) = Some u"
          by (cases "hex4 (take 4 es)") auto
        with True n34 cs e 2(4) obtain str' where "parse_chars (drop 4 es) = Some (str', r)"
          by (cases "parse_chars (drop 4 es)") auto
        from 2(1) [OF n34 True cs e u this] cs show ?thesis
          by simp
      next
        case e: False
        with True n34 cs 2(4) obtain x where x: "unescape e = Some x"
          by (cases "unescape e") auto
        with True n34 cs e 2(4) obtain str' where "parse_chars es = Some (str', r)"
          by (cases "parse_chars es") auto
        from 2(2) [OF n34 True cs e x this] cs show ?thesis
          by simp
      qed
    next
      case n92: False
      with n34 2(4) have c32: "\<not> c < 32"
        by (auto split: if_splits)
      with n34 n92 2(4) obtain str' where "parse_chars cs = Some (str', r)"
        by (cases "parse_chars cs") auto
      from 2(3) [OF n34 n92 c32 this] show ?thesis
        by simp
    qed
  qed
qed


lemma parse_number_shorter:
  assumes "parse_number s = Some (v, r)"
  shows "length r < length s"
proof -
  define minus where "minus = (case s of c # _ \<Rightarrow> c = 45 | [] \<Rightarrow> False)"
  define s1 where "s1 = (if minus then drop 1 s else s)"
  define ip where "ip = (case s1 of c # cs \<Rightarrow> if c = 48 then [c] else takeWhile is_digit s1
                                  | [] \<Rightarrow> [])"
  define s2 where "s2 = drop (length ip) s1"
  define fp where "fp = (case s2 of c # cs \<Rightarrow> if c = 46 then Some (takeWhile is_digit cs) else None
                                | [] \<Rightarrow> None)"
  define s3 where "s3 = (case fp of None \<Rightarrow> s2 | Some fd \<Rightarrow> drop (1 + length fd) s2)"
  have unfolded: "parse_number s =
     (if ip = [] then None
      else
        (let fd = (case fp of None \<Rightarrow> [] | Some fd \<Rightarrow> fd);
             m = (if minus then - digits_val (ip @ fd) else digits_val (ip @ fd))
         in if fp = Some [] then None
            else
              (case s3 of
                 c # cs \<Rightarrow>
                   if c = 101 \<or> c = 69 then
                     (let neg = (case cs of x # _ \<Rightarrow> x = 45 | [] \<Rightarrow> False);
                          s4 = (case cs of x # xs \<Rightarrow> if x = 43 \<or> x = 45 then xs else cs
                                          | [] \<Rightarrow> cs);
                          ed = takeWhile is_digit s4
                      in if ed = [] then None
                         else Some (JNum m ((if neg then - digits_val ed else digits_val ed)
                                              - int (length fd)),
                                    drop (length ed) s4))
                   else Some (JNum m (- int (length fd)), s3)
               | [] \<Rightarrow> Some (JNum m (- int (length fd)), s3))))"
    unfolding parse_number_def minus_def s1_def ip_def s2_def fp_def s3_def Let_def ..
  have ip_ne: "ip \<noteq> []"
    using assms unfolded by (auto split: if_splits)
  have l1: "length s1 \<le> length s"
    by (simp add: s1_def)
  have ip_le: "length ip \<le> length s1"
    unfolding ip_def by (cases s1) (auto intro: le_trans [OF length_takeWhile_le])
  have l2: "length s2 < length s1"
    using ip_ne ip_le by (cases ip) (auto simp: s2_def)
  have l3: "length s3 \<le> length s2"
    unfolding s3_def by (cases fp) auto
  have "length r \<le> length s3"
    using assms unfolding unfolded
    by (auto simp: Let_def split: if_splits list.splits)
  with l1 l2 l3 show ?thesis
    by linarith
qed


lemma parse_value_Suc:
  "parse_value (Suc n) s =
     (case skip_ws s of
        [] \<Rightarrow> None
      | c # cs \<Rightarrow>
          if c = 123 then
            (case skip_ws cs of
               [] \<Rightarrow> None
             | x # r \<Rightarrow>
                 if x = 125 then Some (JObj [], r)
                 else map_option (\<lambda>(ms, rest). (JObj ms, rest)) (parse_members n cs))
          else if c = 91 then
            (case skip_ws cs of
               [] \<Rightarrow> None
             | x # r \<Rightarrow>
                 if x = 93 then Some (JArr [], r)
                 else map_option (\<lambda>(vs, rest). (JArr vs, rest)) (parse_elems n cs))
          else parse_value 1 (c # cs))"
proof (cases "skip_ws s")
  case Nil
  then show ?thesis by simp
next
  case (Cons c cs)
  have "\<not> json_ws c"
    using Cons hd_dropWhile [of json_ws s] by (auto simp: skip_ws_def)
  then have "skip_ws (c # cs) = c # cs"
    by (simp add: skip_ws_def)
  with Cons show ?thesis
    by (simp add: numeral_eq_Suc)
qed

lemma skip_ws_hd: "skip_ws s = c # cs \<Longrightarrow> \<not> json_ws c"
  using hd_dropWhile [of json_ws s] by (auto simp: skip_ws_def)

lemma parse_value_leaf_shorter:
  assumes "parse_value 1 (c # cs) = Some (v, r)" and "\<not> json_ws c"
  shows "length r < length (c # cs)"
proof -
  have sk: "skip_ws (c # cs) = c # cs"
    using assms(2) by (simp add: skip_ws_def)
  have z: "parse_members 0 xs = None" "parse_elems 0 xs = None" for xs
    by simp_all
  from assms(1) sk consider
      (obj) r0 where "c = 123" "r = r0" "skip_ws cs = 125 # r0"
    | (arr) r0 where "c = 91" "r = r0" "skip_ws cs = 93 # r0"
    | (str) str where "c = 34" "parse_chars cs = Some (str, r)"
    | (lit) "length r < length (c # cs)"
    | (num) "parse_number (c # cs) = Some (v, r)"
    by (auto simp: z split: list.splits if_splits)
  then show ?thesis
  proof cases
    case obj
    with skip_ws_Cons [of cs 125 r0] show ?thesis by simp
  next
    case arr
    with skip_ws_Cons [of cs 93 r0] show ?thesis by simp
  next
    case str
    with parse_chars_shorter [of cs str r] show ?thesis by simp
  next
    case lit
    then show ?thesis .
  next
    case num
    then show ?thesis by (rule parse_number_shorter)
  qed
qed


lemma value_bound:
  assumes E: "\<And>s vs r. parse_elems k s = Some (vs, r) \<Longrightarrow>
        length r < length s \<and>
        (\<forall>n. 2 * (length s - length r) + 1 \<le> n \<longrightarrow> parse_elems n s = Some (vs, r))"
    and M: "\<And>s ms r. parse_members k s = Some (ms, r) \<Longrightarrow>
        length r < length s \<and>
        (\<forall>n. 2 * (length s - length r) + 1 \<le> n \<longrightarrow> parse_members n s = Some (ms, r))"
    and P: "parse_value (Suc k) s = Some (v, r)"
  shows "length r < length s \<and>
     (\<forall>n. 2 * (length s - length r) \<le> n \<longrightarrow> parse_value n s = Some (v, r))"
proof -
  obtain c cs where sk: "skip_ws s = c # cs"
    using P by (cases "skip_ws s") (simp_all add: parse_value_Suc)
  have lcs: "length cs < length s"
    using sk by (rule skip_ws_Cons)
  have nws: "\<not> json_ws c"
    using sk by (rule skip_ws_hd)
  from P sk consider
      (obj_empty) "c = 123" "skip_ws cs = 125 # r" "v = JObj []"
    | (obj) x r0 ms where "c = 123" "skip_ws cs = x # r0" "x \<noteq> 125"
        "parse_members k cs = Some (ms, r)" "v = JObj ms"
    | (arr_empty) "c = 91" "skip_ws cs = 93 # r" "v = JArr []"
    | (arr) x r0 vs where "c = 91" "skip_ws cs = x # r0" "x \<noteq> 93"
        "parse_elems k cs = Some (vs, r)" "v = JArr vs"
    | (leaf) "c \<noteq> 123" "c \<noteq> 91" "parse_value 1 (c # cs) = Some (v, r)"
    unfolding parse_value_Suc by (auto split: list.splits if_splits)
  then show ?thesis
  proof cases
    case obj_empty
    have "length r < length cs"
      using obj_empty(2) by (rule skip_ws_Cons)
    with lcs have len: "length r < length s"
      by simp
    have "parse_value n s = Some (v, r)" if "2 * (length s - length r) \<le> n" for n
    proof -
      from that len obtain n' where "n = Suc n'"
        by (cases n) auto
      with sk obj_empty show ?thesis
        by (simp add: parse_value_Suc)
    qed
    with len show ?thesis by simp
  next
    case obj
    from M [OF obj(4)] have lr: "length r < length cs"
      and stable: "\<And>n. 2 * (length cs - length r) + 1 \<le> n \<Longrightarrow>
        parse_members n cs = Some (ms, r)"
      by simp_all
    from lr lcs have len: "length r < length s"
      by simp
    have "parse_value n s = Some (v, r)" if "2 * (length s - length r) \<le> n" for n
    proof -
      from that len obtain n' where n: "n = Suc n'"
        by (cases n) auto
      with that lr lcs have "2 * (length cs - length r) + 1 \<le> n'"
        by simp
      from stable [OF this] sk obj n show ?thesis
        by (simp add: parse_value_Suc)
    qed
    with len show ?thesis by simp
  next
    case arr_empty
    have "length r < length cs"
      using arr_empty(2) by (rule skip_ws_Cons)
    with lcs have len: "length r < length s"
      by simp
    have "parse_value n s = Some (v, r)" if "2 * (length s - length r) \<le> n" for n
    proof -
      from that len obtain n' where "n = Suc n'"
        by (cases n) auto
      with sk arr_empty show ?thesis
        by (simp add: parse_value_Suc)
    qed
    with len show ?thesis by simp
  next
    case arr
    from E [OF arr(4)] have lr: "length r < length cs"
      and stable: "\<And>n. 2 * (length cs - length r) + 1 \<le> n \<Longrightarrow>
        parse_elems n cs = Some (vs, r)"
      by simp_all
    from lr lcs have len: "length r < length s"
      by simp
    have "parse_value n s = Some (v, r)" if "2 * (length s - length r) \<le> n" for n
    proof -
      from that len obtain n' where n: "n = Suc n'"
        by (cases n) auto
      with that lr lcs have "2 * (length cs - length r) + 1 \<le> n'"
        by simp
      from stable [OF this] sk arr n show ?thesis
        by (simp add: parse_value_Suc)
    qed
    with len show ?thesis by simp
  next
    case leaf
    from parse_value_leaf_shorter [OF leaf(3) nws] lcs have len: "length r < length s"
      by simp
    have "parse_value n s = Some (v, r)" if "2 * (length s - length r) \<le> n" for n
    proof -
      from that len obtain n' where n: "n = Suc n'"
        by (cases n) auto
      have "parse_value (Suc n') s = parse_value 1 (c # cs)"
        using sk leaf(1,2) by (subst parse_value_Suc) simp
      with leaf(3) n show ?thesis
        by (simp only:)
    qed
    with len show ?thesis by simp
  qed
qed


lemma elems_bound:
  assumes V: "\<And>s v r. parse_value k s = Some (v, r) \<Longrightarrow>
        length r < length s \<and>
        (\<forall>n. 2 * (length s - length r) \<le> n \<longrightarrow> parse_value n s = Some (v, r))"
    and E: "\<And>s vs r. parse_elems k s = Some (vs, r) \<Longrightarrow>
        length r < length s \<and>
        (\<forall>n. 2 * (length s - length r) + 1 \<le> n \<longrightarrow> parse_elems n s = Some (vs, r))"
    and P: "parse_elems (Suc k) s = Some (vs, r)"
  shows "length r < length s \<and>
     (\<forall>n. 2 * (length s - length r) + 1 \<le> n \<longrightarrow> parse_elems n s = Some (vs, r))"
proof -
  from P obtain v1 r1 where pv: "parse_value k s = Some (v1, r1)"
    by (cases "parse_value k s") auto
  from P pv obtain x r' where sk: "skip_ws r1 = x # r'"
    by (cases "skip_ws r1") auto
  from V [OF pv] have l1: "length r1 < length s"
    and stable_v: "\<And>n. 2 * (length s - length r1) \<le> n \<Longrightarrow> parse_value n s = Some (v1, r1)"
    by simp_all
  have l2: "length r' < length r1"
    using sk by (rule skip_ws_Cons)
  from P pv sk consider
      (more) vs' where "x = 44" "parse_elems k r' = Some (vs', r)" "vs = v1 # vs'"
    | (last) "x = 93" "vs = [v1]" "r = r'"
    by (auto split: if_splits)
  then show ?thesis
  proof cases
    case more
    from E [OF more(2)] have l3: "length r < length r'"
      and stable_e: "\<And>n. 2 * (length r' - length r) + 1 \<le> n \<Longrightarrow>
        parse_elems n r' = Some (vs', r)"
      by simp_all
    from l1 l2 l3 have len: "length r < length s"
      by simp
    have "parse_elems n s = Some (vs, r)" if "2 * (length s - length r) + 1 \<le> n" for n
    proof -
      from that obtain n' where n: "n = Suc n'"
        by (cases n) auto
      from that n l1 l2 l3 have "2 * (length s - length r1) \<le> n'"
        and "2 * (length r' - length r) + 1 \<le> n'"
        by simp_all
      from stable_v [OF this(1)] stable_e [OF this(2)] sk more n show ?thesis
        by simp
    qed
    with len show ?thesis by simp
  next
    case last
    from l1 l2 last have len: "length r < length s"
      by simp
    have "parse_elems n s = Some (vs, r)" if "2 * (length s - length r) + 1 \<le> n" for n
    proof -
      from that obtain n' where n: "n = Suc n'"
        by (cases n) auto
      from that n l1 l2 last have "2 * (length s - length r1) \<le> n'"
        by simp
      from stable_v [OF this] sk last n show ?thesis
        by simp
    qed
    with len show ?thesis by simp
  qed
qed

lemma members_bound:
  assumes V: "\<And>s v r. parse_value k s = Some (v, r) \<Longrightarrow>
        length r < length s \<and>
        (\<forall>n. 2 * (length s - length r) \<le> n \<longrightarrow> parse_value n s = Some (v, r))"
    and M: "\<And>s ms r. parse_members k s = Some (ms, r) \<Longrightarrow>
        length r < length s \<and>
        (\<forall>n. 2 * (length s - length r) + 1 \<le> n \<longrightarrow> parse_members n s = Some (ms, r))"
    and P: "parse_members (Suc k) s = Some (ms, r)"
  shows "length r < length s \<and>
     (\<forall>n. 2 * (length s - length r) + 1 \<le> n \<longrightarrow> parse_members n s = Some (ms, r))"
proof -
  from P obtain q cs where sk0: "skip_ws s = q # cs"
    by (cases "skip_ws s") auto
  from P sk0 have q: "q = 34"
    by (auto split: if_splits)
  from P sk0 q obtain key r0 where pc: "parse_chars cs = Some (key, r0)"
    by (cases "parse_chars cs") auto
  from P sk0 q pc obtain col r1 where sk1: "skip_ws r0 = col # r1"
    by (cases "skip_ws r0") auto
  from P sk0 q pc sk1 have col: "col = 58"
    by (auto split: if_splits)
  from P sk0 q pc sk1 col obtain v1 r2 where pv: "parse_value k r1 = Some (v1, r2)"
    by (cases "parse_value k r1") auto
  from P sk0 q pc sk1 col pv obtain x r3 where sk2: "skip_ws r2 = x # r3"
    by (cases "skip_ws r2") auto
  have l0: "length cs < length s"
    using sk0 by (rule skip_ws_Cons)
  have l1: "length r0 < length cs"
    using pc by (rule parse_chars_shorter)
  have l2: "length r1 < length r0"
    using sk1 by (rule skip_ws_Cons)
  from V [OF pv] have l3: "length r2 < length r1"
    and stable_v: "\<And>n. 2 * (length r1 - length r2) \<le> n \<Longrightarrow>
      parse_value n r1 = Some (v1, r2)"
    by simp_all
  have l4: "length r3 < length r2"
    using sk2 by (rule skip_ws_Cons)
  from P sk0 q pc sk1 col pv sk2 consider
      (more) ms' where "x = 44" "parse_members k r3 = Some (ms', r)" "ms = (key, v1) # ms'"
    | (last) "x = 125" "ms = [(key, v1)]" "r = r3"
    by (auto split: if_splits)
  then show ?thesis
  proof cases
    case more
    from M [OF more(2)] have l5: "length r < length r3"
      and stable_m: "\<And>n. 2 * (length r3 - length r) + 1 \<le> n \<Longrightarrow>
        parse_members n r3 = Some (ms', r)"
      by simp_all
    from l0 l1 l2 l3 l4 l5 have len: "length r < length s"
      by simp
    have "parse_members n s = Some (ms, r)" if "2 * (length s - length r) + 1 \<le> n" for n
    proof -
      from that obtain n' where n: "n = Suc n'"
        by (cases n) auto
      from that n l0 l1 l2 l3 l4 l5 have "2 * (length r1 - length r2) \<le> n'"
        and "2 * (length r3 - length r) + 1 \<le> n'"
        by simp_all
      from stable_v [OF this(1)] stable_m [OF this(2)] sk0 q pc sk1 col sk2 more n
      show ?thesis
        by simp
    qed
    with len show ?thesis by simp
  next
    case last
    from l0 l1 l2 l3 l4 last have len: "length r < length s"
      by simp
    have "parse_members n s = Some (ms, r)" if "2 * (length s - length r) + 1 \<le> n" for n
    proof -
      from that obtain n' where n: "n = Suc n'"
        by (cases n) auto
      from that n l0 l1 l2 l3 l4 last have "2 * (length r1 - length r2) \<le> n'"
        by simp
      from stable_v [OF this] sk0 q pc sk1 col sk2 last n show ?thesis
        by simp
    qed
    with len show ?thesis by simp
  qed
qed

lemma parser_bound:
  "(\<forall>s v r. parse_value m s = Some (v, r) \<longrightarrow>
      length r < length s \<and>
      (\<forall>n. 2 * (length s - length r) \<le> n \<longrightarrow> parse_value n s = Some (v, r))) \<and>
   (\<forall>s vs r. parse_elems m s = Some (vs, r) \<longrightarrow>
      length r < length s \<and>
      (\<forall>n. 2 * (length s - length r) + 1 \<le> n \<longrightarrow> parse_elems n s = Some (vs, r))) \<and>
   (\<forall>s ms r. parse_members m s = Some (ms, r) \<longrightarrow>
      length r < length s \<and>
      (\<forall>n. 2 * (length s - length r) + 1 \<le> n \<longrightarrow> parse_members n s = Some (ms, r)))"
proof (induction m)
  case 0
  show ?case by simp
next
  case (Suc k)
  from Suc have V: "\<And>s v r. parse_value k s = Some (v, r) \<Longrightarrow>
        length r < length s \<and>
        (\<forall>n. 2 * (length s - length r) \<le> n \<longrightarrow> parse_value n s = Some (v, r))"
    and E: "\<And>s vs r. parse_elems k s = Some (vs, r) \<Longrightarrow>
        length r < length s \<and>
        (\<forall>n. 2 * (length s - length r) + 1 \<le> n \<longrightarrow> parse_elems n s = Some (vs, r))"
    and M: "\<And>s ms r. parse_members k s = Some (ms, r) \<Longrightarrow>
        length r < length s \<and>
        (\<forall>n. 2 * (length s - length r) + 1 \<le> n \<longrightarrow> parse_members n s = Some (ms, r))"
    by blast+
  show ?case
    using value_bound [OF E M] elems_bound [OF V E] members_bound [OF V M]
    by (intro conjI allI impI) blast+
qed

text \<open>
  The bound that \<open>JSON_parse\<close> gives the descent is never the reason for a failure:
  what any bound parses, this one parses to the same value.
\<close>

lemma JSON_parse_bound_enough:
  assumes "parse_value m s = Some (v, r)"
  shows "parse_value (2 * length s + 2) s = Some (v, r)"
proof -
  from parser_bound [of m] assms
  have "\<forall>n. 2 * (length s - length r) \<le> n \<longrightarrow> parse_value n s = Some (v, r)"
    by blast
  moreover have "2 * (length s - length r) \<le> 2 * length s + 2"
    by simp
  ultimately show ?thesis
    by blast
qed

lemma JSON_parse_None_iff:
  "JSON_parse s = None \<longleftrightarrow> (\<forall>m v r. parse_value m s = Some (v, r) \<longrightarrow> skip_ws r \<noteq> [])"
proof
  assume none: "JSON_parse s = None"
  show "\<forall>m v r. parse_value m s = Some (v, r) \<longrightarrow> skip_ws r \<noteq> []"
  proof (intro allI impI)
    fix m v r
    assume "parse_value m s = Some (v, r)"
    then have b: "parse_value (2 * length s + 2) s = Some (v, r)"
      by (rule JSON_parse_bound_enough)
    show "skip_ws r \<noteq> []"
    proof
      assume "skip_ws r = []"
      then have "JSON_parse s = Some v"
        unfolding JSON_parse_def b by simp
      with none show False
        by simp
    qed
  qed
next
  assume all: "\<forall>m v r. parse_value m s = Some (v, r) \<longrightarrow> skip_ws r \<noteq> []"
  show "JSON_parse s = None"
  proof (cases "parse_value (2 * length s + 2) s")
    case None
    then show ?thesis
      unfolding JSON_parse_def by (simp only: option.case)
  next
    case (Some a)
    obtain v r where a: "a = (v, r)"
      by (cases a)
    with all Some have "skip_ws r \<noteq> []"
      by blast
    then show ?thesis
      unfolding JSON_parse_def Some a by simp
  qed
qed

section \<open>Decoding a record\<close>

lemma parse_chars_plain:
  "\<forall>c\<in>set str. 32 \<le> c \<and> c \<noteq> 34 \<and> c \<noteq> 92 \<Longrightarrow>
   parse_chars (str @ 34 # rest) = Some (str, rest)"
  by (induction str) auto

lemma JSON_parse_content_record:
  assumes "\<forall>c\<in>set str. 32 \<le> c \<and> c \<noteq> 34 \<and> c \<noteq> 92"
  shows "JSON_parse (content_record str) = Some (JObj [(asc ''content'', JStr str)])"
proof -
  obtain m where fuel: "2 * length (content_record str) + 2 = Suc (Suc (Suc m))"
    by (simp add: content_record_def asc_def numeral_eq_Suc)
  have pc: "parse_chars (str @ asc ''\"}'') = Some (str, asc ''}'')"
    using parse_chars_plain [OF assms, of "asc ''}''"] by (simp add: asc_def)
  have v: "parse_value (Suc m) (asc ''\"'' @ str @ asc ''\"}'') = Some (JStr str, asc ''}'')"
    using pc by (simp add: asc_def skip_ws_def json_ws_def)
  have ms: "parse_members (Suc (Suc m)) (asc ''\"content\":\"'' @ str @ asc ''\"}'') =
      Some ([(asc ''content'', JStr str)], [])"
    using v by (simp add: asc_def skip_ws_def json_ws_def)
  have "parse_value (Suc (Suc (Suc m))) (content_record str) =
      Some (JObj [(asc ''content'', JStr str)], [])"
    using ms unfolding content_record_def asc_def
    by (simp add: skip_ws_def json_ws_def)
  then show ?thesis
    unfolding JSON_parse_def fuel by (simp add: skip_ws_def del: parse_value.simps)
qed

lemma decode_record_content_record:
  assumes "\<forall>c\<in>set str. 32 \<le> c \<and> c \<noteq> 34 \<and> c \<noteq> 92"
  shows "decode_record (content_record str) =
     (if str = [] \<or> trim str = TOKEN then Inr Skip else Inr (Emit str))"
  by (simp add: decode_record_def JSON_parse_content_record [OF assms] get_content_def
      truthy_def asc_def)

section \<open>Indices\<close>

lemma process_parts_index:
  "map index sl = [0..<length sl] \<Longrightarrow>
   map index (snd (process_parts ps sl)) = [0..<length (snd (process_parts ps sl))]"
proof (induction ps sl rule: process_parts.induct)
  case (1 slides)
  then show ?case by simp
next
  case (2 slideJson rest slides)
  show ?case
  proof (cases "slideJson = []")
    case True
    with 2 show ?thesis by simp
  next
    case False
    show ?thesis
    proof (cases "decode_record slideJson")
      case (Inl e)
      with False 2 show ?thesis by simp
    next
      case (Inr a)
      show ?thesis
      proof (cases a)
        case Skip
        with False Inr 2 show ?thesis by simp
      next
        case (Emit c)
        have "map index (slides @ [parseSlide_gen c (length slides)]) =
            [0..<length (slides @ [parseSlide_gen c (length slides)])]"
          using 2(4) by (simp add: parseSlide_gen_def Let_def)
        with False Inr Emit 2(3) show ?thesis by simp
      qed
    qed
  qed
qed

lemma read_loop_index:
  "map index sl = [0..<length sl] \<Longrightarrow>
   map index (snd (read_loop chunks d acc sl)) = [0..<length (snd (read_loop chunks d acc sl))]"
proof (induction chunks arbitrary: d acc sl)
  case Nil
  then show ?case by simp
next
  case (Cons v chunks)
  obtain d' tx where D: "decode d v = (d', tx)" by force
  define parts where "parts = js_split RECORD_END (acc @ tx)"
  show ?case
  proof (cases "length parts > 1")
    case True
    obtain r sl' where P: "process_parts (butlast parts) sl = (r, sl')" by force
    have inv: "map index sl' = [0..<length sl']"
      using process_parts_index [OF Cons.prems, of "butlast parts"] P by simp
    show ?thesis
    proof (cases r)
      case None
      have "read_loop (v # chunks) d acc sl = read_loop chunks d' (last parts) sl'"
        using True P None by (simp add: D parts_def [symmetric] Let_def)
      with Cons.IH [OF inv] show ?thesis by simp
    next
      case (Some e)
      have "read_loop (v # chunks) d acc sl = (Some e, sl')"
        using True P Some by (simp add: D parts_def [symmetric] Let_def)
      with inv show ?thesis by simp
    qed
  next
    case False
    have "read_loop (v # chunks) d acc sl = read_loop chunks d' (acc @ tx) sl"
      using False by (simp add: D parts_def [symmetric] Let_def)
    with Cons.IH [OF Cons.prems] show ?thesis by simp
  qed
qed

lemma map_index_enumerate:
  "map index (map (\<lambda>(idx, s). f s idx) (enumerate n xs)) = [n..<n + length xs]"
  if "\<And>s i. index (f s i) = i"
  by (induction xs arbitrary: n) (simp_all add: that upt_rec)

lemma parsedSlides_index: "map index (parsedSlides c) = [0..<length (parsedSlides c)]"
  using map_index_enumerate [of parseSlide_view 0 "filter keep_block (js_split SEPARATOR c)"]
  by (simp add: parsedSlides_def parseSlide_view_def Let_def)

lemma selectedSlides_index:
  "map index (selectedSlides c) = [0..<length (selectedSlides c)]"
  using map_index_enumerate [of parseSlide_gen 0 "filter keep_block (js_split SEPARATOR c)"]
  by (simp add: selectedSlides_def parseSlide_gen_def Let_def)

lemma load_index:
  "map index sl = [0..<length sl] \<Longrightarrow> map index (load sl dc) = [0..<length (load sl dc)]"
  by (simp add: load_def parsedSlides_index split: option.splits)

lemma handleSelectPresentation_index:
  "map index sl = [0..<length sl] \<Longrightarrow>
   map index (handleSelectPresentation sl dc) = [0..<length (handleSelectPresentation sl dc)]"
  by (simp add: handleSelectPresentation_def selectedSlides_index split: option.splits)

lemma load_content: "c \<noteq> [] \<Longrightarrow> load sl (Some c) = parsedSlides c"
  by (simp add: load_def)

lemma handleSelectPresentation_content:
  "c \<noteq> [] \<Longrightarrow> handleSelectPresentation sl (Some c) = selectedSlides c"
  by (simp add: handleSelectPresentation_def)

lemma load_no_content: "load sl None = sl" "load sl (Some []) = sl"
  by (simp_all add: load_def)

lemma handleSelectPresentation_no_content:
  "handleSelectPresentation sl None = sl" "handleSelectPresentation sl (Some []) = sl"
  by (simp_all add: handleSelectPresentation_def)

lemma JSON_parse_bad: "JSON_parse (asc ''{bad'') = None"
  by (simp add: JSON_parse_def asc_def numeral_eq_Suc skip_ws_def json_ws_def)

section \<open>Evaluation on concrete records\<close>

lemmas decode_eval =
  stream_text_def decode_def utf8_step_def utf8_lead_def new_decoder_def reset_sequence_def
  utf16_def ascii_bytes_def Let_def

lemmas normalize_eval =
  slide_lines_def slide_title_def trim_def strip_stars_def strip_label_def ci_prefix_def
  upper_cu_def canon_bullet_def asc_def LF_def BULLET_def is_ws_def Let_def suffix_to_prefix
  js_split.simps(2)

lemma plain_A: "\<forall>c\<in>set (asc ''A''). 32 \<le> c \<and> c \<noteq> 34 \<and> c \<noteq> 92"
  by (simp add: asc_def)

lemma plain_B: "\<forall>c\<in>set (asc ''B''). 32 \<le> c \<and> c \<noteq> 34 \<and> c \<noteq> 92"
  by (simp add: asc_def)

lemma plain_TOKEN: "\<forall>c\<in>set TOKEN. 32 \<le> c \<and> c \<noteq> 34 \<and> c \<noteq> 92"
  by (simp add: TOKEN_def asc_def)

lemma plain_bullet: "\<forall>c\<in>set (BULLET # asc '' Limits''). 32 \<le> c \<and> c \<noteq> 34 \<and> c \<noteq> 92"
  by (simp add: asc_def BULLET_def)

lemma trim_A: "trim (asc ''A'') = asc ''A''"
  by (simp add: normalize_eval)

lemma trim_B: "trim (asc ''B'') = asc ''B''"
  by (simp add: normalize_eval)

lemma trim_TOKEN: "trim TOKEN = TOKEN"
  by (simp add: TOKEN_def normalize_eval)

lemma decode_record_A: "decode_record (content_record (asc ''A'')) = Inr (Emit (asc ''A''))"
  by (simp add: decode_record_content_record [OF plain_A] trim_A) (simp add: asc_def TOKEN_def)

lemma decode_record_B: "decode_record (content_record (asc ''B'')) = Inr (Emit (asc ''B''))"
  by (simp add: decode_record_content_record [OF plain_B] trim_B) (simp add: asc_def TOKEN_def)

lemma decode_record_TOKEN: "decode_record (content_record TOKEN) = Inr Skip"
  by (simp add: decode_record_content_record [OF plain_TOKEN] trim_TOKEN)

lemma decode_record_bad: "decode_record (asc ''{bad'') = Inl SyntaxError"
  by (simp add: decode_record_def JSON_parse_bad)

lemma parseSlide_gen_A: "parseSlide_gen (asc ''A'') i = \<lparr>title = asc ''A'', content = [], index = i\<rparr>"
  by (simp add: parseSlide_gen_def normalize_eval)

lemma parseSlide_gen_B: "parseSlide_gen (asc ''B'') i = \<lparr>title = asc ''B'', content = [], index = i\<rparr>"
  by (simp add: parseSlide_gen_def normalize_eval)

lemma content_record_ne: "content_record s \<noteq> []"
  by (simp add: content_record_def asc_def)

lemma LF_content_record: "LF \<notin> set s \<Longrightarrow> LF \<notin> set (content_record s)"
  by (simp add: content_record_def asc_def LF_def)

lemma wf_A: "well_framed (content_record (asc ''A''))"
  by (rule well_framed_no_LF, rule LF_content_record) (simp add: asc_def LF_def)

lemma wf_B: "well_framed (content_record (asc ''B''))"
  by (rule well_framed_no_LF, rule LF_content_record) (simp add: asc_def LF_def)

lemma wf_TOKEN: "well_framed (content_record TOKEN)"
  by (rule well_framed_no_LF, rule LF_content_record) (simp add: TOKEN_def asc_def LF_def)

lemma wf_bad: "well_framed (asc ''{bad'')"
  by (rule well_framed_no_LF) (simp add: asc_def LF_def)

lemma process_A_B:
  "process_parts [content_record (asc ''A''), content_record (asc ''B'')] [] =
     (None, [\<lparr>title = asc ''A'', content = [], index = 0\<rparr>,
             \<lparr>title = asc ''B'', content = [], index = 1\<rparr>])"
  by (simp add: content_record_ne decode_record_A decode_record_B parseSlide_gen_A
      parseSlide_gen_B)

section \<open>Claims about the stream\<close>

text \<open>
  C3. Chunk-boundary independence: two sequences of chunks with the same bytes in all
  give the same outcome of the read loop, the same slides included, wherever the chunk
  boundaries fall. The decoder keeps the bytes of an unfinished character between two
  calls, so a boundary inside a multi-byte character changes nothing either: whichever
  way the UTF-8 encoding of a text is cut into chunks, the loop works on this very text
  (in UTF-16, as JavaScript holds it), no character replaced.
\<close>

theorem chunk_boundary_independence:
  "(concat chunks = concat chunks' \<longrightarrow> handleSubmit chunks = handleSubmit chunks') \<and>
   (list_all scalar_value cps \<longrightarrow> (cps = [] \<or> hd cps \<noteq> 65279) \<longrightarrow>
    concat chunks = concat (map utf8_encode cps) \<longrightarrow>
      stream_text chunks = concat (map utf16 cps) \<and>
      handleSubmit chunks =
        process_parts (butlast (js_split RECORD_END (concat (map utf16 cps)))) [])"
proof -
  have "handleSubmit chunks = handleSubmit chunks'" if "concat chunks = concat chunks'"
    using that by (simp add: handleSubmit_eq stream_text_def)
  moreover have "stream_text chunks = concat (map utf16 cps) \<and>
      handleSubmit chunks =
        process_parts (butlast (js_split RECORD_END (concat (map utf16 cps)))) []"
    if "list_all scalar_value cps" "cps = [] \<or> hd cps \<noteq> 65279"
      "concat chunks = concat (map utf8_encode cps)"
    using stream_text_utf8 [OF that] by (simp add: handleSubmit_eq)
  ultimately show ?thesis
    by blast
qed

theorem chunk_boundary_independence_witness:
  \<open>concat [ascii_bytes ''{"content":"'' @ [0xE2, 0x80, 0xA2] @ ascii_bytes '' Limits"}'' @ [10, 10]] =
   concat [ascii_bytes ''{"content":"'' @ [0xE2], [0x80, 0xA2] @ ascii_bytes '' Limits"}'' @ [10, 10]] \<and>
   handleSubmit [ascii_bytes ''{"content":"'' @ [0xE2, 0x80, 0xA2] @ ascii_bytes '' Limits"}'' @ [10, 10]] =
   handleSubmit [ascii_bytes ''{"content":"'' @ [0xE2], [0x80, 0xA2] @ ascii_bytes '' Limits"}'' @ [10, 10]] \<and>
   list_all scalar_value (asc ''{"content":"'' @ [BULLET] @ asc '' Limits"}'' @ [LF, LF]) \<and>
   hd (asc ''{"content":"'' @ [BULLET] @ asc '' Limits"}'' @ [LF, LF]) \<noteq> 65279 \<and>
   concat [ascii_bytes ''{"content":"'' @ [0xE2], [0x80, 0xA2] @ ascii_bytes '' Limits"}'' @ [10, 10]] =
   concat (map utf8_encode (asc ''{"content":"'' @ [BULLET] @ asc '' Limits"}'' @ [LF, LF])) \<and>
   stream_text [ascii_bytes ''{"content":"'' @ [0xE2], [0x80, 0xA2] @ ascii_bytes '' Limits"}'' @ [10, 10]] =
     asc ''{"content":"'' @ [BULLET] @ asc '' Limits"}'' @ [LF, LF] \<and>
   handleSubmit [ascii_bytes ''{"content":"'' @ [0xE2], [0x80, 0xA2] @ ascii_bytes '' Limits"}'' @ [10, 10]] =
     (None, [\<lparr>title = BULLET # asc '' Limits'', content = [], index = 0\<rparr>])\<close>
proof -
  let ?one = \<open>[ascii_bytes ''{"content":"'' @ [0xE2, 0x80, 0xA2] @ ascii_bytes '' Limits"}'' @ [10, 10]]\<close>
  let ?two = \<open>[ascii_bytes ''{"content":"'' @ [0xE2], [0x80, 0xA2] @ ascii_bytes '' Limits"}'' @ [10, 10]]\<close>
  let ?cps = \<open>asc ''{"content":"'' @ [BULLET] @ asc '' Limits"}'' @ [LF, LF]\<close>
  have same: "concat ?one = concat ?two"
    by simp
  have sv: "list_all scalar_value ?cps"
    by (simp add: scalar_value_def asc_def BULLET_def LF_def)
  have nb: "hd ?cps \<noteq> 65279"
    by (simp add: asc_def)
  have enc: "concat ?two = concat (map utf8_encode ?cps)"
    by (simp add: utf8_encode_def ascii_bytes_def asc_def BULLET_def LF_def)
  have u16: "concat (map utf16 ?cps) = frame [content_record (BULLET # asc '' Limits'')]"
    by (simp add: utf16_def frame_def content_record_def asc_def BULLET_def RECORD_END_def
        LF_def)
  have "LF \<notin> set (BULLET # asc '' Limits'')"
    by (simp add: asc_def BULLET_def LF_def)
  then have wf: "\<forall>p\<in>set [content_record (BULLET # asc '' Limits'')]. well_framed p"
    by (simp add: well_framed_no_LF LF_content_record)
  have parts: "butlast (js_split RECORD_END (concat (map utf16 ?cps))) =
      [content_record (BULLET # asc '' Limits'')]"
    unfolding u16 using js_split_frame [OF wf, of "[]"] by simp
  have dr: "decode_record (content_record (BULLET # asc '' Limits'')) =
      Inr (Emit (BULLET # asc '' Limits''))"
    by (simp add: decode_record_content_record [OF plain_bullet])
       (simp add: normalize_eval TOKEN_def)
  have ps: "parseSlide_gen (BULLET # asc '' Limits'') 0 =
      \<lparr>title = BULLET # asc '' Limits'', content = [], index = 0\<rparr>"
    by (simp add: parseSlide_gen_def normalize_eval)
  have pp: "process_parts [content_record (BULLET # asc '' Limits'')] [] =
      (None, [\<lparr>title = BULLET # asc '' Limits'', content = [], index = 0\<rparr>])"
    by (simp add: content_record_ne dr ps)
  have u16': "concat (map utf16 ?cps) = ?cps"
    by (simp add: utf16_def asc_def BULLET_def LF_def)
  from chunk_boundary_independence [of ?one ?two ?cps] same
  have a: "handleSubmit ?one = handleSubmit ?two"
    by blast
  from chunk_boundary_independence [of ?two ?two ?cps] sv nb enc
  have b0: "stream_text ?two = concat (map utf16 ?cps)"
    and c0: "handleSubmit ?two =
      process_parts (butlast (js_split RECORD_END (concat (map utf16 ?cps)))) []"
    by blast+
  from b0 have b: "stream_text ?two = ?cps"
    by (simp only: u16')
  from c0 have c: "handleSubmit ?two =
      (None, [\<lparr>title = BULLET # asc '' Limits'', content = [], index = 0\<rparr>])"
    by (simp only: parts pp)
  from same a sv nb enc b c show ?thesis
    by blast
qed

text \<open>
  C5. What is left in the buffer when the stream ends is dropped: for a stream whose
  text is a sequence of complete records followed by a rest without a record end,
  the outcome of the read loop is that of the complete records alone, whatever the
  rest is. The rest is never handed to the decoder and raises nothing.
\<close>

theorem trailing_partial_record_discarded:
  assumes "stream_text chunks = frame ps @ r"
    and "\<forall>p\<in>set ps. well_framed p"
    and "js_split RECORD_END r = [r]"
  shows "handleSubmit chunks = process_parts ps []"
  using assms by (simp add: handleSubmit_eq js_split_frame butlast_append)

theorem trailing_partial_record_discarded_witness:
  \<open>stream_text [ascii_bytes ''{"content":"A"}'' @ [10, 10] @ ascii_bytes ''{"conte''] =
     frame [content_record (asc ''A'')] @ asc ''{"conte'' \<and>
   well_framed (content_record (asc ''A'')) \<and>
   js_split RECORD_END (asc ''{"conte'') = [asc ''{"conte''] \<and>
   handleSubmit [ascii_bytes ''{"content":"A"}'' @ [10, 10] @ ascii_bytes ''{"conte''] =
     (None, [\<lparr>title = asc ''A'', content = [], index = 0\<rparr>])\<close>
proof -
  let ?chunks = \<open>[ascii_bytes ''{"content":"A"}'' @ [10, 10] @ ascii_bytes ''{"conte'']\<close>
  have tx: \<open>stream_text ?chunks = frame [content_record (asc ''A'')] @ asc ''{"conte''\<close>
    by (simp add: decode_eval frame_def content_record_def asc_def RECORD_END_def LF_def)
  have wf: "\<forall>p\<in>set [content_record (asc ''A'')]. well_framed p"
    by (simp add: wf_A)
  have rest: \<open>js_split RECORD_END (asc ''{"conte'') = [asc ''{"conte'']\<close>
    by (simp add: RECORD_END_def asc_def LF_def js_split.simps(2))
  have "process_parts [content_record (asc ''A'')] [] =
      (None, [\<lparr>title = asc ''A'', content = [], index = 0\<rparr>])"
    by (simp add: content_record_ne decode_record_A parseSlide_gen_A)
  with trailing_partial_record_discarded [OF tx wf rest] tx wf_A rest show ?thesis
    by simp
qed

text \<open>
  C9. The indices of the slides of one presentation are 0, 1, 2, ... without a gap:
  the read loop keeps this from any state that has it (so it holds after every
  iteration), it holds at the end of a run, and it holds after re-hydration in both
  pages: for the slides made of a stored content, and for the state that re-hydration
  leaves, which is the state before when the presentation has no content or an empty
  one. A record that is emitted is appended with the current number of slides as its
  index.
\<close>

theorem slide_indices_contiguous:
  "(map index sl = [0..<length sl] \<longrightarrow>
      map index (snd (read_loop chunks d acc sl)) =
        [0..<length (snd (read_loop chunks d acc sl))]) \<and>
   map index (snd (handleSubmit chunks)) = [0..<length (snd (handleSubmit chunks))] \<and>
   map index (parsedSlides c) = [0..<length (parsedSlides c)] \<and>
   map index (selectedSlides c) = [0..<length (selectedSlides c)] \<and>
   (map index sl = [0..<length sl] \<longrightarrow>
      map index (load sl dc) = [0..<length (load sl dc)] \<and>
      map index (handleSelectPresentation sl dc) =
        [0..<length (handleSelectPresentation sl dc)]) \<and>
   (p \<noteq> [] \<longrightarrow> decode_record p = Inr (Emit txt) \<longrightarrow>
      process_parts [p] sl = (None, sl @ [parseSlide_gen txt (length sl)]) \<and>
      index (parseSlide_gen txt (length sl)) = length sl)"
proof -
  have "map index (snd (handleSubmit chunks)) = [0..<length (snd (handleSubmit chunks))]"
    unfolding handleSubmit_def by (rule read_loop_index) simp
  moreover have "p \<noteq> [] \<longrightarrow> decode_record p = Inr (Emit txt) \<longrightarrow>
      process_parts [p] sl = (None, sl @ [parseSlide_gen txt (length sl)]) \<and>
      index (parseSlide_gen txt (length sl)) = length sl"
    by (simp add: parseSlide_gen_def Let_def)
  ultimately show ?thesis
    using read_loop_index [of sl chunks d acc] parsedSlides_index [of c]
      selectedSlides_index [of c] load_index [of sl dc]
      handleSelectPresentation_index [of sl dc]
    by blast
qed

lemma stream_A_B:
  \<open>stream_text [ascii_bytes ''{"content":"A"}'' @ [10], [10] @ ascii_bytes ''{"content":"B"}'' @ [10, 10]] =
     frame [content_record (asc ''A''), content_record (asc ''B'')] @ []\<close>
  by (simp add: decode_eval frame_def content_record_def asc_def RECORD_END_def LF_def)

lemma handleSubmit_A_B:
  \<open>handleSubmit [ascii_bytes ''{"content":"A"}'' @ [10], [10] @ ascii_bytes ''{"content":"B"}'' @ [10, 10]] =
     (None, [\<lparr>title = asc ''A'', content = [], index = 0\<rparr>,
             \<lparr>title = asc ''B'', content = [], index = 1\<rparr>])\<close>
proof -
  have "\<forall>p\<in>set [content_record (asc ''A''), content_record (asc ''B'')]. well_framed p"
    by (simp add: wf_A wf_B)
  then have \<open>handleSubmit [ascii_bytes ''{"content":"A"}'' @ [10], [10] @ ascii_bytes ''{"content":"B"}'' @ [10, 10]] =
      process_parts [content_record (asc ''A''), content_record (asc ''B'')] []\<close>
    by (rule handleSubmit_framed [OF stream_A_B]) simp
  then show ?thesis
    by (simp only: process_A_B)
qed

lemma split_stored_A_TOKEN_B:
  "js_split SEPARATOR (asc ''A'' @ SEPARATOR @ TOKEN @ SEPARATOR @ asc ''B'') =
     [asc ''A''] @ TOKEN # [asc ''B'']"
  by (simp add: SEPARATOR_def TOKEN_def asc_def LF_def js_split.simps(2))

lemma split_stored_A_B:
  "js_split SEPARATOR (asc ''A'' @ SEPARATOR @ asc ''B'') = [asc ''A''] @ [asc ''B'']"
  by (simp add: SEPARATOR_def TOKEN_def asc_def LF_def js_split.simps(2))

lemma parseSlide_view_A: "parseSlide_view (asc ''A'') i = \<lparr>title = asc ''A'', content = [], index = i\<rparr>"
  by (simp add: parseSlide_view_def normalize_eval)

lemma parseSlide_view_B: "parseSlide_view (asc ''B'') i = \<lparr>title = asc ''B'', content = [], index = i\<rparr>"
  by (simp add: parseSlide_view_def normalize_eval)

lemma keep_A: "keep_block (asc ''A'')"
  by (simp add: keep_block_def trim_A) (simp add: asc_def TOKEN_def)

lemma keep_B: "keep_block (asc ''B'')"
  by (simp add: keep_block_def trim_B) (simp add: asc_def TOKEN_def)

lemma stored_A_B_not_Nil: "asc ''A'' @ SEPARATOR @ asc ''B'' \<noteq> []"
  by (simp add: asc_def)

lemma load_A_B:
  "load sl (Some (asc ''A'' @ SEPARATOR @ asc ''B'')) =
     [\<lparr>title = asc ''A'', content = [], index = 0\<rparr>,
      \<lparr>title = asc ''B'', content = [], index = 1\<rparr>]"
  unfolding load_content [OF stored_A_B_not_Nil] parsedSlides_def split_stored_A_B
  by (simp add: keep_A keep_B parseSlide_view_A parseSlide_view_B)

theorem slide_indices_contiguous_witness:
  \<open>map index ([] :: slide list) = [0..<length ([] :: slide list)] \<and>
   map index (snd (read_loop
       [ascii_bytes ''{"content":"A"}'' @ [10], [10] @ ascii_bytes ''{"content":"B"}'' @ [10, 10]]
       new_decoder [] [])) = [0, 1] \<and>
   map index (load [] (Some (asc ''A'' @ SEPARATOR @ asc ''B''))) = [0, 1] \<and>
   content_record (asc ''A'') \<noteq> [] \<and>
   decode_record (content_record (asc ''A'')) = Inr (Emit (asc ''A'')) \<and>
   process_parts [content_record (asc ''A'')] [] =
     (None, [\<lparr>title = asc ''A'', content = [], index = 0\<rparr>])\<close>
proof -
  let ?chunks = \<open>[ascii_bytes ''{"content":"A"}'' @ [10], [10] @ ascii_bytes ''{"content":"B"}'' @ [10, 10]]\<close>
  let ?stored = "Some (asc ''A'' @ SEPARATOR @ asc ''B'')"
  have "read_loop ?chunks new_decoder [] [] =
      (None, [\<lparr>title = asc ''A'', content = [], index = 0\<rparr>,
              \<lparr>title = asc ''B'', content = [], index = 1\<rparr>])"
    using handleSubmit_A_B unfolding handleSubmit_def .
  then have len: "length (snd (read_loop ?chunks new_decoder [] [])) = 2"
    by (simp only: snd_conv list.size)
  have len': "length (load [] ?stored) = 2"
    by (simp only: load_A_B list.size)
  have base: "map index ([] :: slide list) = [0..<length ([] :: slide list)]"
    by simp
  from slide_indices_contiguous
    [where sl = "[]" and chunks = ?chunks and d = new_decoder and acc = "[]" and c = "[]"
       and dc = ?stored and p = "content_record (asc ''A'')" and ?txt = "asc ''A''"]
  have "map index (snd (read_loop ?chunks new_decoder [] [])) =
          [0..<length (snd (read_loop ?chunks new_decoder [] []))]"
    and "map index (load [] ?stored) = [0..<length (load [] ?stored)]"
    and "process_parts [content_record (asc ''A'')] [] =
          (None, [] @ [parseSlide_gen (asc ''A'') (length ([] :: slide list))])"
    using base content_record_ne [of "asc ''A''"] decode_record_A by blast+
  then have "map index (snd (read_loop ?chunks new_decoder [] [])) = [0, 1]"
    and "map index (load [] ?stored) = [0, 1]"
    and "process_parts [content_record (asc ''A'')] [] =
          (None, [\<lparr>title = asc ''A'', content = [], index = 0\<rparr>])"
    unfolding len len'
    by (simp_all only: parseSlide_gen_A append_Nil list.size) (simp_all add: upt_rec)
  then show ?thesis
    using base content_record_ne [of "asc ''A''"] decode_record_A by blast
qed

section \<open>No-op and malformed records\<close>

lemma process_parts_skip:
  "decode_record p = Inr Skip \<Longrightarrow>
   process_parts (ps1 @ p # ps2) sl = process_parts (ps1 @ ps2) sl"
  by (simp add: process_parts_append [of ps1] split: prod.splits option.splits)

lemma TOKEN_not_Nil: "TOKEN \<noteq> []"
  by (simp add: TOKEN_def asc_def)

lemma trim_Nil: "trim [] = []"
  by (simp add: trim_def)

lemma decode_record_token:
  assumes "JSON_parse p = Some slide" and "get_content slide = Inr (Some (JStr c))"
    and "trim c = TOKEN"
  shows "decode_record p = Inr Skip"
proof -
  have "c \<noteq> []"
    using assms(3) TOKEN_not_Nil trim_Nil by auto
  with assms show ?thesis
    by (simp add: decode_record_def truthy_def)
qed

lemma token_block_dropped: "trim b = TOKEN \<Longrightarrow> \<not> keep_block b"
  by (simp add: keep_block_def)

text \<open>
  C4. A record whose content, trimmed, is the token ---SLIDE_SEPARATOR--- is a no-op on
  both paths. A stream with such a record among its complete records has the outcome
  of the stream without it, so no slide is made of it and the slides behind it get the
  indices they would have without it. On re-hydration of a stored content with a block
  that is the token when trimmed, the slides are those of the other blocks, numbered as
  if the block were not there, whatever the slides were before; when it is the only
  block, re-hydration leaves no slide.
\<close>

theorem separator_record_is_noop:
  "(stream_text chunks = frame (ps1 @ p # ps2) @ r \<longrightarrow>
    stream_text chunks' = frame (ps1 @ ps2) @ r' \<longrightarrow>
    (\<forall>q\<in>set (ps1 @ p # ps2). well_framed q) \<longrightarrow>
    js_split RECORD_END r = [r] \<longrightarrow> js_split RECORD_END r' = [r'] \<longrightarrow>
    JSON_parse p = Some slide \<longrightarrow> get_content slide = Inr (Some (JStr c)) \<longrightarrow>
    trim c = TOKEN \<longrightarrow>
      decode_record p = Inr Skip \<and> handleSubmit chunks = handleSubmit chunks') \<and>
   (js_split SEPARATOR stored = bs1 @ b # bs2 \<longrightarrow> trim b = TOKEN \<longrightarrow>
      load sl (Some stored) =
        map (\<lambda>(idx, s). parseSlide_view s idx)
          (enumerate 0 (filter keep_block (bs1 @ bs2))) \<and>
      handleSelectPresentation sl (Some stored) =
        map (\<lambda>(idx, s). parseSlide_gen s idx)
          (enumerate 0 (filter keep_block (bs1 @ bs2)))) \<and>
   (js_split SEPARATOR only = [b'] \<longrightarrow> trim b' = TOKEN \<longrightarrow>
      load sl (Some only) = [] \<and> handleSelectPresentation sl (Some only) = [])"
proof -
  have "decode_record p = Inr Skip \<and> handleSubmit chunks = handleSubmit chunks'"
    if tx: "stream_text chunks = frame (ps1 @ p # ps2) @ r"
      and tx': "stream_text chunks' = frame (ps1 @ ps2) @ r'"
      and wf: "\<forall>q\<in>set (ps1 @ p # ps2). well_framed q"
      and r: "js_split RECORD_END r = [r]" and r': "js_split RECORD_END r' = [r']"
      and p: "JSON_parse p = Some slide" "get_content slide = Inr (Some (JStr c))"
        "trim c = TOKEN"
  proof -
    have skip: "decode_record p = Inr Skip"
      using p by (rule decode_record_token)
    have wf': "\<forall>q\<in>set (ps1 @ ps2). well_framed q"
      using wf by simp
    have "handleSubmit chunks = process_parts (ps1 @ p # ps2) []"
      using tx wf r by (rule handleSubmit_framed)
    moreover have "handleSubmit chunks' = process_parts (ps1 @ ps2) []"
      using tx' wf' r' by (rule handleSubmit_framed)
    ultimately show ?thesis
      using skip by (simp add: process_parts_skip)
  qed
  moreover have "load sl' (Some st) =
        map (\<lambda>(idx, s). parseSlide_view s idx)
          (enumerate 0 (filter keep_block (cs1 @ cs2))) \<and>
      handleSelectPresentation sl' (Some st) =
        map (\<lambda>(idx, s). parseSlide_gen s idx)
          (enumerate 0 (filter keep_block (cs1 @ cs2)))"
    if split: "js_split SEPARATOR st = cs1 @ x # cs2" and x: "trim x = TOKEN"
    for sl' st cs1 x cs2
  proof -
    have "st \<noteq> []"
    proof
      assume "st = []"
      with split have "cs1 @ x # cs2 = [[]]"
        by simp
      then have "x = []"
        by (cases cs1) simp_all
      with x show False
        using TOKEN_not_Nil trim_Nil by simp
    qed
    then show ?thesis
      using split x
      by (simp add: load_content handleSelectPresentation_content parsedSlides_def
          selectedSlides_def token_block_dropped)
  qed
  from this [of stored bs1 b bs2 sl] this [of only "[]" b' "[]" sl]
  have "js_split SEPARATOR stored = bs1 @ b # bs2 \<longrightarrow> trim b = TOKEN \<longrightarrow>
      load sl (Some stored) =
        map (\<lambda>(idx, s). parseSlide_view s idx)
          (enumerate 0 (filter keep_block (bs1 @ bs2))) \<and>
      handleSelectPresentation sl (Some stored) =
        map (\<lambda>(idx, s). parseSlide_gen s idx)
          (enumerate 0 (filter keep_block (bs1 @ bs2)))"
    and "js_split SEPARATOR only = [b'] \<longrightarrow> trim b' = TOKEN \<longrightarrow>
      load sl (Some only) = [] \<and> handleSelectPresentation sl (Some only) = []"
    by simp_all
  ultimately show ?thesis
    by blast
qed

lemma stream_A_TOKEN_B:
  \<open>stream_text [ascii_bytes ''{"content":"A"}'' @ [10, 10] @
                ascii_bytes ''{"content":"---SLIDE_SEPARATOR---"}'' @ [10, 10] @
                ascii_bytes ''{"content":"B"}'' @ [10, 10]] =
     frame ([content_record (asc ''A'')] @ content_record TOKEN # [content_record (asc ''B'')]) @ []\<close>
  by (simp add: decode_eval frame_def content_record_def TOKEN_def asc_def RECORD_END_def LF_def)

lemma stream_A_B_one_chunk:
  \<open>stream_text [ascii_bytes ''{"content":"A"}'' @ [10, 10] @
                ascii_bytes ''{"content":"B"}'' @ [10, 10]] =
     frame ([content_record (asc ''A'')] @ [content_record (asc ''B'')]) @ []\<close>
  by (simp add: decode_eval frame_def content_record_def asc_def RECORD_END_def LF_def)

lemma split_stored_TOKEN: "js_split SEPARATOR TOKEN = [TOKEN]"
  by (simp add: SEPARATOR_def TOKEN_def asc_def LF_def js_split.simps(2))

theorem separator_record_is_noop_witness:
  \<open>stream_text [ascii_bytes ''{"content":"A"}'' @ [10, 10] @
                ascii_bytes ''{"content":"---SLIDE_SEPARATOR---"}'' @ [10, 10] @
                ascii_bytes ''{"content":"B"}'' @ [10, 10]] =
     frame ([content_record (asc ''A'')] @ content_record TOKEN # [content_record (asc ''B'')]) @ [] \<and>
   stream_text [ascii_bytes ''{"content":"A"}'' @ [10, 10] @
                ascii_bytes ''{"content":"B"}'' @ [10, 10]] =
     frame ([content_record (asc ''A'')] @ [content_record (asc ''B'')]) @ [] \<and>
   well_framed (content_record (asc ''A'')) \<and>
   well_framed (content_record TOKEN) \<and>
   well_framed (content_record (asc ''B'')) \<and>
   js_split RECORD_END [] = [[]] \<and>
   JSON_parse (content_record TOKEN) = Some (JObj [(asc ''content'', JStr TOKEN)]) \<and>
   get_content (JObj [(asc ''content'', JStr TOKEN)]) = Inr (Some (JStr TOKEN)) \<and>
   trim TOKEN = TOKEN \<and>
   handleSubmit [ascii_bytes ''{"content":"A"}'' @ [10, 10] @
                 ascii_bytes ''{"content":"---SLIDE_SEPARATOR---"}'' @ [10, 10] @
                 ascii_bytes ''{"content":"B"}'' @ [10, 10]] =
     (None, [\<lparr>title = asc ''A'', content = [], index = 0\<rparr>,
             \<lparr>title = asc ''B'', content = [], index = 1\<rparr>]) \<and>
   js_split SEPARATOR (asc ''A'' @ SEPARATOR @ TOKEN @ SEPARATOR @ asc ''B'') =
     [asc ''A''] @ TOKEN # [asc ''B''] \<and>
   load [\<lparr>title = asc ''Old'', content = [], index = 0\<rparr>]
       (Some (asc ''A'' @ SEPARATOR @ TOKEN @ SEPARATOR @ asc ''B'')) =
     [\<lparr>title = asc ''A'', content = [], index = 0\<rparr>,
      \<lparr>title = asc ''B'', content = [], index = 1\<rparr>] \<and>
   js_split SEPARATOR TOKEN = [TOKEN] \<and>
   load [\<lparr>title = asc ''Old'', content = [], index = 0\<rparr>] (Some TOKEN) = [] \<and>
   handleSelectPresentation [\<lparr>title = asc ''Old'', content = [], index = 0\<rparr>] (Some TOKEN) = []\<close>
proof -
  let ?with = \<open>[ascii_bytes ''{"content":"A"}'' @ [10, 10] @
                ascii_bytes ''{"content":"---SLIDE_SEPARATOR---"}'' @ [10, 10] @
                ascii_bytes ''{"content":"B"}'' @ [10, 10]]\<close>
  let ?without = \<open>[ascii_bytes ''{"content":"A"}'' @ [10, 10] @
                   ascii_bytes ''{"content":"B"}'' @ [10, 10]]\<close>
  let ?old = "[\<lparr>title = asc ''Old'', content = [], index = 0\<rparr>]"
  have wf: "\<forall>q\<in>set ([content_record (asc ''A'')] @ content_record TOKEN #
      [content_record (asc ''B'')]). well_framed q"
    by (simp add: wf_A wf_B wf_TOKEN)
  have r: "js_split RECORD_END [] = [[]]"
    by simp
  have jp: "JSON_parse (content_record TOKEN) = Some (JObj [(asc ''content'', JStr TOKEN)])"
    by (rule JSON_parse_content_record [OF plain_TOKEN])
  have gc: "get_content (JObj [(asc ''content'', JStr TOKEN)]) = Inr (Some (JStr TOKEN))"
    by (simp add: get_content_def)
  have wf2: "\<forall>p\<in>set ([content_record (asc ''A'')] @ [content_record (asc ''B'')]).
      well_framed p"
    by (simp add: wf_A wf_B)
  have "handleSubmit ?without =
      process_parts ([content_record (asc ''A'')] @ [content_record (asc ''B'')]) []"
    by (rule handleSubmit_framed [OF stream_A_B_one_chunk wf2 r])
  then have without: "handleSubmit ?without =
      (None, [\<lparr>title = asc ''A'', content = [], index = 0\<rparr>,
              \<lparr>title = asc ''B'', content = [], index = 1\<rparr>])"
    by (simp only: append_Cons append_Nil process_A_B)
  have blocks: "map (\<lambda>(idx, s). parseSlide_view s idx)
        (enumerate 0 (filter keep_block ([asc ''A''] @ [asc ''B'']))) =
      [\<lparr>title = asc ''A'', content = [], index = 0\<rparr>,
       \<lparr>title = asc ''B'', content = [], index = 1\<rparr>]"
    by (simp add: keep_A keep_B parseSlide_view_A parseSlide_view_B)
  from separator_record_is_noop
    [where chunks = ?with and ?ps1.0 = "[content_record (asc ''A'')]"
       and p = "content_record TOKEN" and ?ps2.0 = "[content_record (asc ''B'')]" and r = "[]"
       and chunks' = ?without and r' = "[]"
       and slide = "JObj [(asc ''content'', JStr TOKEN)]" and c = TOKEN
       and stored = "asc ''A'' @ SEPARATOR @ TOKEN @ SEPARATOR @ asc ''B''"
       and ?bs1.0 = "[asc ''A'']" and b = TOKEN and ?bs2.0 = "[asc ''B'']"
       and sl = ?old and only = TOKEN and b' = TOKEN]
  have "handleSubmit ?with = handleSubmit ?without"
    and "load ?old (Some (asc ''A'' @ SEPARATOR @ TOKEN @ SEPARATOR @ asc ''B'')) =
         map (\<lambda>(idx, s). parseSlide_view s idx)
           (enumerate 0 (filter keep_block ([asc ''A''] @ [asc ''B''])))"
    and "load ?old (Some TOKEN) = []"
    and "handleSelectPresentation ?old (Some TOKEN) = []"
    using stream_A_TOKEN_B stream_A_B_one_chunk wf r jp gc trim_TOKEN split_stored_A_TOKEN_B
      split_stored_TOKEN
    by blast+
  then have "handleSubmit ?with =
      (None, [\<lparr>title = asc ''A'', content = [], index = 0\<rparr>,
              \<lparr>title = asc ''B'', content = [], index = 1\<rparr>])"
    and "load ?old (Some (asc ''A'' @ SEPARATOR @ TOKEN @ SEPARATOR @ asc ''B'')) =
     [\<lparr>title = asc ''A'', content = [], index = 0\<rparr>,
      \<lparr>title = asc ''B'', content = [], index = 1\<rparr>]"
    and "load ?old (Some TOKEN) = []"
    and "handleSelectPresentation ?old (Some TOKEN) = []"
    by (simp_all only: without blocks)
  then show ?thesis
    using stream_A_TOKEN_B stream_A_B_one_chunk wf_A wf_TOKEN wf_B r jp gc trim_TOKEN
      split_stored_A_TOKEN_B split_stored_TOKEN
    by blast
qed

text \<open>
  C2 (as the code has it). A record that \<open>JSON.parse\<close> rejects ends the run: the
  exception leaves the read loop, the slides of the records before it stay, in stream
  order and with the indices 0, 1, 2, ..., and no record behind it is processed.
\<close>

theorem malformed_record_ends_run:
  assumes "stream_text chunks = frame (ps1 @ bad # ps2) @ r"
    and "\<forall>q\<in>set (ps1 @ bad # ps2). well_framed q"
    and "js_split RECORD_END r = [r]"
    and "bad \<noteq> []" and "JSON_parse bad = None"
    and "process_parts ps1 [] = (None, sl)"
  shows "handleSubmit chunks = (Some SyntaxError, sl) \<and> map index sl = [0..<length sl]"
proof -
  have "handleSubmit chunks = process_parts (ps1 @ bad # ps2) []"
    using assms(1-3) by (rule handleSubmit_framed)
  moreover have "decode_record bad = Inl SyntaxError"
    using assms(5) by (simp add: decode_record_def)
  ultimately have "handleSubmit chunks = (Some SyntaxError, sl)"
    using assms(4,6) by (simp add: process_parts_append [of ps1])
  moreover have "map index sl = [0..<length sl]"
    using process_parts_index [of "[]" ps1] assms(6) by simp
  ultimately show ?thesis by simp
qed


lemma stream_A_bad_B:
  \<open>stream_text [ascii_bytes ''{"content":"A"}'' @ [10, 10] @ ascii_bytes ''{bad'' @ [10, 10] @
                ascii_bytes ''{"content":"B"}'' @ [10, 10]] =
     frame ([content_record (asc ''A'')] @ asc ''{bad'' # [content_record (asc ''B'')]) @ []\<close>
  by (simp add: decode_eval frame_def content_record_def asc_def RECORD_END_def LF_def)

lemma process_A:
  "process_parts [content_record (asc ''A'')] [] =
     (None, [\<lparr>title = asc ''A'', content = [], index = 0\<rparr>])"
  by (simp add: content_record_ne decode_record_A parseSlide_gen_A)

theorem malformed_record_ends_run_witness:
  \<open>stream_text [ascii_bytes ''{"content":"A"}'' @ [10, 10] @ ascii_bytes ''{bad'' @ [10, 10] @
                ascii_bytes ''{"content":"B"}'' @ [10, 10]] =
     frame ([content_record (asc ''A'')] @ asc ''{bad'' # [content_record (asc ''B'')]) @ [] \<and>
   well_framed (content_record (asc ''A'')) \<and>
   well_framed (asc ''{bad'') \<and>
   well_framed (content_record (asc ''B'')) \<and>
   js_split RECORD_END [] = [[]] \<and>
   asc ''{bad'' \<noteq> [] \<and>
   JSON_parse (asc ''{bad'') = None \<and>
   process_parts [content_record (asc ''A'')] [] =
     (None, [\<lparr>title = asc ''A'', content = [], index = 0\<rparr>]) \<and>
   handleSubmit [ascii_bytes ''{"content":"A"}'' @ [10, 10] @ ascii_bytes ''{bad'' @ [10, 10] @
                 ascii_bytes ''{"content":"B"}'' @ [10, 10]] =
     (Some SyntaxError, [\<lparr>title = asc ''A'', content = [], index = 0\<rparr>])\<close>
proof -
  have wf: "\<forall>q\<in>set ([content_record (asc ''A'')] @ asc ''{bad'' #
      [content_record (asc ''B'')]). well_framed q"
    by (simp add: wf_A wf_B wf_bad)
  have r: "js_split RECORD_END [] = [[]]"
    by simp
  have ne: "asc ''{bad'' \<noteq> []"
    by (simp add: asc_def)
  from malformed_record_ends_run [OF stream_A_bad_B wf r ne JSON_parse_bad process_A]
    stream_A_bad_B wf_A wf_bad wf_B r ne JSON_parse_bad process_A
  show ?thesis
    by blast
qed

text \<open>
  C2, as the specification states it, fails: with a record that is no JSON between two
  good ones the run ends with the SyntaxError, and the slide of the record behind the
  bad one is never appended.
\<close>

theorem malformed_record_counterexample:
  \<open>handleSubmit [ascii_bytes ''{"content":"A"}'' @ [10, 10] @ ascii_bytes ''{bad'' @ [10, 10] @
                 ascii_bytes ''{"content":"B"}'' @ [10, 10]] =
     (Some SyntaxError, [\<lparr>title = asc ''A'', content = [], index = 0\<rparr>]) \<and>
   snd (handleSubmit [ascii_bytes ''{"content":"A"}'' @ [10, 10] @ ascii_bytes ''{bad'' @ [10, 10] @
                      ascii_bytes ''{"content":"B"}'' @ [10, 10]]) \<noteq>
     [\<lparr>title = asc ''A'', content = [], index = 0\<rparr>,
      \<lparr>title = asc ''B'', content = [], index = 1\<rparr>]\<close>
proof -
  have wf: "\<forall>q\<in>set ([content_record (asc ''A'')] @ asc ''{bad'' #
      [content_record (asc ''B'')]). well_framed q"
    by (simp add: wf_A wf_B wf_bad)
  have \<open>handleSubmit [ascii_bytes ''{"content":"A"}'' @ [10, 10] @ ascii_bytes ''{bad'' @ [10, 10] @
                 ascii_bytes ''{"content":"B"}'' @ [10, 10]] =
      process_parts ([content_record (asc ''A'')] @ asc ''{bad'' # [content_record (asc ''B'')]) []\<close>
    by (rule handleSubmit_framed [OF stream_A_bad_B wf]) simp
  also have "\<dots> = (Some SyntaxError, [\<lparr>title = asc ''A'', content = [], index = 0\<rparr>])"
    by (simp add: content_record_ne decode_record_A parseSlide_gen_A decode_record_bad)
       (simp add: asc_def)
  finally show ?thesis
    by simp
qed

section \<open>Claims about the normalizers\<close>

lemma derivatives_lines:
  "slide_lines derivatives_block =
     [asc ''**Derivatives**'', asc ''- First point'', asc ''* Second point'',
      BULLET # asc '' Third point'']"
  by (simp add: derivatives_block_def slide_lines_def trim_def asc_def LF_def BULLET_def
      is_ws_def js_split.simps(2))

lemma derivatives_title: "slide_title (slide_lines derivatives_block) i = asc ''Derivatives''"
  unfolding derivatives_lines
  by (simp add: slide_title_def strip_stars_def strip_label_def ci_prefix_def upper_cu_def
      asc_def trim_def is_ws_def Let_def suffix_to_prefix)

text \<open>
  C6 fails on the streaming path. \<open>parseSlide\<close> of SignIn.tsx, the normalizer that
  \<open>handleSubmit\<close> applies to every record of the stream, joins the lines after the title
  unchanged: the content lines of the example stay "- First point", "* Second point",
  "\<bullet> Third point". The function of the same name in PresentationView.tsx has the
  replacement that this one lacks.
\<close>

theorem streaming_normalizer_keeps_bullets:
  "parseSlide_gen derivatives_block 0 =
     \<lparr>title = asc ''Derivatives'',
      content = js_join [LF] [asc ''- First point'', asc ''* Second point'',
                              BULLET # asc '' Third point''],
      index = 0\<rparr> \<and>
   content (parseSlide_gen derivatives_block 0) \<noteq>
     js_join [LF] [BULLET # asc '' First point'', BULLET # asc '' Second point'',
                   BULLET # asc '' Third point'']"
proof -
  have "parseSlide_gen derivatives_block 0 =
     \<lparr>title = asc ''Derivatives'',
      content = js_join [LF] [asc ''- First point'', asc ''* Second point'',
                              BULLET # asc '' Third point''],
      index = 0\<rparr>"
    unfolding parseSlide_gen_def derivatives_title Let_def
    unfolding derivatives_lines
    by simp
  then show ?thesis
    by (simp add: asc_def BULLET_def)
qed

text \<open>
  The sibling normalizer has the rule of C6. \<open>parseSlide\<close> of
  PresentationView.tsx turns the block of the lines "**Derivatives**", "- First point",
  "* Second point", "\<bullet> Third point" into the title "Derivatives" and the content lines
  "\<bullet> First point", "\<bullet> Second point", "\<bullet> Third point", at any index: a content line that
  starts with *, - or \<bullet> has this glyph and the white space behind it replaced by "\<bullet> ".
\<close>

theorem view_normalizer_canonical_bullets:
  "parseSlide_view derivatives_block i =
     \<lparr>title = asc ''Derivatives'',
      content = js_join [LF] [BULLET # asc '' First point'', BULLET # asc '' Second point'',
                              BULLET # asc '' Third point''],
      index = i\<rparr> \<and>
   content (parseSlide_view t i) = js_join [LF] (map canon_bullet (drop 1 (slide_lines t))) \<and>
   canon_bullet (42 # rest) = [BULLET, 32] @ dropWhile is_ws rest \<and>
   canon_bullet (45 # rest) = [BULLET, 32] @ dropWhile is_ws rest \<and>
   canon_bullet (BULLET # rest) = [BULLET, 32] @ dropWhile is_ws rest"
proof -
  have "parseSlide_view derivatives_block i =
     \<lparr>title = asc ''Derivatives'',
      content = js_join [LF] [BULLET # asc '' First point'', BULLET # asc '' Second point'',
                              BULLET # asc '' Third point''],
      index = i\<rparr>"
    unfolding parseSlide_view_def derivatives_title Let_def
    unfolding derivatives_lines
    by (simp add: canon_bullet_def asc_def BULLET_def is_ws_def)
  moreover have "content (parseSlide_view t i) =
      js_join [LF] (map canon_bullet (drop 1 (slide_lines t)))"
    by (simp add: parseSlide_view_def Let_def)
  ultimately show ?thesis
    by (simp add: canon_bullet_def)
qed

text \<open>
  C10 fails: on a block with a bulleted line the two functions named \<open>parseSlide\<close>
  return different slides, the one of SignIn.tsx keeping "- a" where the one of
  PresentationView.tsx returns "\<bullet> a". It is the missing replacement of C6.
\<close>

theorem normalizers_differ:
  "parseSlide_gen (asc ''T'' @ [LF] @ asc ''- a'') 0 =
     \<lparr>title = asc ''T'', content = asc ''- a'', index = 0\<rparr> \<and>
   parseSlide_view (asc ''T'' @ [LF] @ asc ''- a'') 0 =
     \<lparr>title = asc ''T'', content = BULLET # asc '' a'', index = 0\<rparr> \<and>
   parseSlide_gen (asc ''T'' @ [LF] @ asc ''- a'') 0 \<noteq>
     parseSlide_view (asc ''T'' @ [LF] @ asc ''- a'') 0"
proof -
  have g: "parseSlide_gen (asc ''T'' @ [LF] @ asc ''- a'') 0 =
     \<lparr>title = asc ''T'', content = asc ''- a'', index = 0\<rparr>"
    by (simp add: parseSlide_gen_def normalize_eval)
  have v: "parseSlide_view (asc ''T'' @ [LF] @ asc ''- a'') 0 =
     \<lparr>title = asc ''T'', content = BULLET # asc '' a'', index = 0\<rparr>"
    by (simp add: parseSlide_view_def normalize_eval)
  have "asc ''- a'' \<noteq> BULLET # asc '' a''"
    by (simp add: asc_def BULLET_def)
  with g v show ?thesis
    by simp
qed

text \<open>
  The extent of the difference between the two normalizers. They agree on the title and
  on the index of every block; the content of the viewing page is the content of the
  streaming page with the bullet replacement applied to each of its lines.
\<close>

theorem normalizers_agree_up_to_bullets:
  "title (parseSlide_view t i) = title (parseSlide_gen t i) \<and>
   index (parseSlide_view t i) = index (parseSlide_gen t i) \<and>
   content (parseSlide_view t i) =
     js_join [LF] (map canon_bullet (js_split [LF] (content (parseSlide_gen t i))))"
proof -
  have "js_join [LF] (map canon_bullet ls) =
      js_join [LF] (map canon_bullet (js_split [LF] (js_join [LF] ls)))"
    if "\<forall>l\<in>set ls. LF \<notin> set l" for ls
  proof (cases "ls = []")
    case True
    then show ?thesis by (simp add: canon_bullet_def)
  next
    case False
    with that show ?thesis by (simp add: js_split_join_lines)
  qed
  moreover have "\<forall>l\<in>set (drop 1 (slide_lines t)). LF \<notin> set l"
    by (auto dest: in_set_dropD slide_lines_no_LF)
  ultimately show ?thesis
    by (simp add: parseSlide_view_def parseSlide_gen_def Let_def)
qed

section \<open>Blank lines\<close>

lemma trim_hd_not_ws: "trim t \<noteq> [] \<Longrightarrow> \<not> is_ws (hd (trim t))"
proof -
  assume ne: "trim t \<noteq> []"
  define u where "u = dropWhile is_ws t"
  have t: "trim t = rev (dropWhile is_ws (rev u))"
    by (simp add: trim_def u_def)
  with ne have "u \<noteq> []" by auto
  then have hu: "\<not> is_ws (hd u)"
    unfolding u_def by (rule hd_dropWhile)
  obtain k where k: "dropWhile is_ws (rev u) = drop k (rev u)"
    by (metis dropWhile_eq_drop)
  then have "trim t = take (length u - k) u"
    by (simp add: t rev_drop)
  with ne have "hd (trim t) = hd u"
    by (metis hd_take take_eq_Nil zero_less_iff_neq_zero hd_conv_nth length_greater_0_conv nth_take take_all_iff leI)
  with hu show ?thesis by simp
qed

lemma trim_not_ws_Cons: "\<not> is_ws c \<Longrightarrow> trim (c # cs) \<noteq> []"
  by (auto simp: trim_def dropWhile_eq_Nil_conv)

lemma first_line_not_blank:
  assumes "trim t \<noteq> []"
  shows "trim (hd (js_split [LF] (trim t))) \<noteq> []"
proof -
  obtain c cs where cc: "trim t = c # cs"
    using assms by (cases "trim t") auto
  with trim_hd_not_ws [OF assms] have nws: "\<not> is_ws c"
    by simp
  then have "c \<noteq> LF"
    by (auto simp: is_ws_def LF_def)
  then have "hd (js_split [LF] (c # cs)) = c # hd (js_split [LF] cs)"
    by (simp add: js_split_LF_Cons)
  with nws show ?thesis
    by (simp add: cc trim_not_ws_Cons)
qed

lemma slide_lines_tail:
  "drop 1 (slide_lines t) = filter (\<lambda>l. trim l \<noteq> []) (drop 1 (js_split [LF] (trim t)))"
proof (cases "trim t = []")
  case True
  then show ?thesis by (simp add: slide_lines_def trim_Nil)
next
  case False
  obtain l ls where sp: "js_split [LF] (trim t) = l # ls"
    by (cases "js_split [LF] (trim t)") auto
  with first_line_not_blank [OF False] have "trim l \<noteq> []"
    by simp
  with sp show ?thesis
    by (simp add: slide_lines_def)
qed

text \<open>
  C7, as the specification states it, fails: a blank line between the title and the
  body is not kept. For the block of the lines "T", "", "A" the lines from the second
  one on are "" and "A", and both normalizers return the content "A".
\<close>

theorem blank_lines_not_preserved:
  "content (parseSlide_gen (js_join [LF] [asc ''T'', [], asc ''A'']) 0) = asc ''A'' \<and>
   content (parseSlide_view (js_join [LF] [asc ''T'', [], asc ''A'']) 0) = asc ''A'' \<and>
   js_join [LF] (drop 1 [asc ''T'', [], asc ''A'']) = LF # asc ''A'' \<and>
   content (parseSlide_gen (js_join [LF] [asc ''T'', [], asc ''A'']) 0) \<noteq>
     js_join [LF] (drop 1 [asc ''T'', [], asc ''A''])"
  by (simp add: parseSlide_gen_def parseSlide_view_def normalize_eval)

text \<open>
  C7, amended. The content is made of the lines of the trimmed block from the second
  line on, in their order, without the blank ones (those of white space only), joined
  with newlines; the viewing page replaces the bullets of these lines as well.
\<close>

theorem content_is_nonblank_lines:
  "content (parseSlide_gen t i) =
     js_join [LF] (filter (\<lambda>l. trim l \<noteq> []) (drop 1 (js_split [LF] (trim t)))) \<and>
   content (parseSlide_view t i) =
     js_join [LF] (map canon_bullet
       (filter (\<lambda>l. trim l \<noteq> []) (drop 1 (js_split [LF] (trim t)))))"
  using slide_lines_tail [of t] by (simp add: parseSlide_gen_def parseSlide_view_def Let_def)

section \<open>Export and re-hydration\<close>

lemma digits_chars: "c \<in> set (digits n) \<Longrightarrow> 48 \<le> c \<and> c \<le> 57"
proof (induction n arbitrary: c rule: digits.induct)
  case (1 n)
  show ?case
  proof (cases "n < 10")
    case True
    with 1(2) show ?thesis
      by (simp add: digits.simps [of n])
  next
    case False
    with 1(2) have "c \<in> set (digits (n div 10)) \<or> c = 48 + n mod 10"
      by (auto simp: digits.simps [of n])
    then show ?thesis
    proof
      assume "c \<in> set (digits (n div 10))"
      with 1(1) False show ?thesis by simp
    next
      assume "c = 48 + n mod 10"
      then show ?thesis by simp
    qed
  qed
qed

lemma digits_not_Nil: "digits n \<noteq> []"
  by (simp add: digits.simps [of n])

lemma trim_last_not_ws: "trim t \<noteq> [] \<Longrightarrow> \<not> is_ws (last (trim t))"
proof -
  assume ne: "trim t \<noteq> []"
  then have "dropWhile is_ws (rev (dropWhile is_ws t)) \<noteq> []"
    by (simp add: trim_def)
  then have "\<not> is_ws (hd (dropWhile is_ws (rev (dropWhile is_ws t))))"
    by (rule hd_dropWhile)
  with ne show ?thesis
    by (simp add: trim_def last_rev)
qed

lemma trim_fixed: "s \<noteq> [] \<Longrightarrow> \<not> is_ws (hd s) \<Longrightarrow> \<not> is_ws (last s) \<Longrightarrow> trim s = s"
proof -
  assume s: "s \<noteq> []" and h: "\<not> is_ws (hd s)" and l: "\<not> is_ws (last s)"
  from s h have a: "dropWhile is_ws s = s"
    by (cases s) auto
  from s l have "dropWhile is_ws (rev s) = rev s"
    by (cases "rev s") (auto simp: last_rev [symmetric] hd_rev)
  with a show ?thesis
    by (simp add: trim_def)
qed

lemma trim_drop_trailing:
  "s \<noteq> [] \<Longrightarrow> \<not> is_ws (hd s) \<Longrightarrow> \<not> is_ws (last s) \<Longrightarrow> list_all is_ws w \<Longrightarrow>
   trim (s @ w) = s"
proof -
  assume s: "s \<noteq> []" and h: "\<not> is_ws (hd s)" and l: "\<not> is_ws (last s)"
    and w: "list_all is_ws w"
  from s h have a: "dropWhile is_ws (s @ w) = s @ w"
    by (cases s) auto
  have "dropWhile is_ws (rev w @ rev s) = dropWhile is_ws (rev s)"
    using w by (intro dropWhile_append2) (simp add: list_all_iff)
  also from s l have "\<dots> = rev s"
    by (cases "rev s") (auto simp: hd_rev)
  finally show ?thesis
    by (simp add: trim_def a)
qed

lemma export_block_heading:
  "export_block i s = export_heading i (title s) @ [LF, LF] @ content s"
  by (simp add: export_block_def export_heading_def)

lemma heading_Cons: "\<exists>rest. export_heading i t = 83 # rest"
  by (simp add: export_heading_def asc_def)

lemma heading_no_LF: "LF \<notin> set t \<Longrightarrow> LF \<notin> set (export_heading i t)"
  by (auto simp: export_heading_def asc_def LF_def dest: digits_chars)

lemma heading_last: "t \<noteq> [] \<Longrightarrow> last (export_heading i t) = last t"
  by (simp add: export_heading_def)

lemma not_ws_83: "\<not> is_ws 83"
  by (simp add: is_ws_def)

lemma normal_title_ends:
  assumes "normal_title t"
  shows "t \<noteq> []" and "\<not> is_ws (last t)" and "LF \<notin> set t"
proof -
  from assms show ne: "t \<noteq> []" and "LF \<notin> set t"
    by (simp_all add: normal_title_def)
  from assms have "trim t = t"
    by (simp add: normal_title_def)
  with ne trim_last_not_ws [of t] show "\<not> is_ws (last t)"
    by simp
qed

lemma heading_trim:
  assumes "normal_title t"
  shows "trim (export_heading i t) = export_heading i t"
proof -
  obtain rest where h: "export_heading i t = 83 # rest"
    using heading_Cons by blast
  have "\<not> is_ws (last (export_heading i t))"
    using normal_title_ends [OF assms] by (simp add: heading_last)
  moreover have "\<not> is_ws (hd (export_heading i t))"
    by (simp add: h not_ws_83)
  ultimately show ?thesis
    by (intro trim_fixed) (simp_all add: h)
qed

lemma heading_strip_stars:
  assumes "normal_title t"
  shows "strip_stars (export_heading i t) = export_heading i t"
proof -
  obtain rest where h: "export_heading i t = 83 # rest"
    using heading_Cons by blast
  have np: "\<not> prefix (asc ''**'') (export_heading i t)"
    by (simp add: h asc_def)
  have ns: "\<not> suffix (asc ''**'') (export_heading i t)"
  proof
    assume "suffix (asc ''**'') (export_heading i t)"
    then have "suffix [42, 42] ((asc ''Slide '' @ digits (i + 1) @ asc '': '') @ t)"
      by (simp add: export_heading_def asc_def)
    then consider "suffix [42, 42] t"
      | xs where "[42, 42] = xs @ t" "suffix xs (asc ''Slide '' @ digits (i + 1) @ asc '': '')"
      unfolding suffix_append by blast
    then show False
    proof cases
      case 1
      with assms show False
        by (simp add: normal_title_def asc_def)
    next
      case 2
      from assms have ne: "t \<noteq> []" and nsf: "\<not> suffix [42, 42] t"
        by (simp_all add: normal_title_def asc_def)
      from 2(1) ne nsf have "xs = [42]"
        by (cases xs; cases "tl xs") (auto simp: Cons_eq_append_conv)
      with 2(2) have "suffix [42] ((asc ''Slide '' @ digits (i + 1) @ [58]) @ [32])"
        by (simp add: asc_def)
      then show False
        unfolding suffix_append by (auto simp: suffix_def)
    qed
  qed
  from np ns show ?thesis
    by (simp add: strip_stars_def Let_def)
qed

lemma heading_strip_label: "strip_label (export_heading i t) = export_heading i t"
proof -
  obtain d ds where d: "digits (i + 1) = d # ds"
    using digits_not_Nil [of "i + 1"] by (cases "digits (i + 1)") auto
  then have "d \<in> set (digits (i + 1))"
    by simp
  then have b: "48 \<le> d \<and> d \<le> 57"
    by (rule digits_chars)
  have h: "export_heading i t = 83 # 108 # 105 # 100 # 101 # 32 # d # ds @ asc '': '' @ t"
    unfolding export_heading_def d by (simp add: asc_def)
  have "\<not> ci_prefix (asc ''Slide Title:'') (export_heading i t)"
    using b by (auto simp: h ci_prefix_def asc_def upper_cu_def)
  moreover have "\<not> ci_prefix (asc ''Title:'') (export_heading i t)"
    by (auto simp: h ci_prefix_def asc_def upper_cu_def)
  ultimately show ?thesis
    by (simp add: strip_label_def)
qed

lemma heading_title:
  assumes "normal_title t"
  shows "slide_title (export_heading i t # ls) k = export_heading i t"
proof -
  obtain rest where h: "export_heading i t = 83 # rest"
    using heading_Cons by blast
  show ?thesis
    by (simp add: slide_title_def heading_strip_stars [OF assms] heading_strip_label
        heading_trim [OF assms] Let_def) (simp add: h)
qed

lemma block_trim:
  assumes "normal_title t" and "normal_content c"
  shows "trim (export_heading i t @ [LF, LF] @ c) =
     (if c = [] then export_heading i t else export_heading i t @ [LF, LF] @ c)"
proof -
  obtain rest where h: "export_heading i t = 83 # rest"
    using heading_Cons by blast
  have hl: "\<not> is_ws (last (export_heading i t))"
    using normal_title_ends [OF assms(1)] by (simp add: heading_last)
  show ?thesis
  proof (cases "c = []")
    case True
    have "trim (export_heading i t @ [LF, LF]) = export_heading i t"
      using hl by (intro trim_drop_trailing) (simp_all add: h not_ws_83 is_ws_def LF_def)
    with True show ?thesis by simp
  next
    case False
    with assms(2) have "\<not> is_ws (last c)"
      by (simp add: normal_content_def)
    with False have "trim (export_heading i t @ [LF, LF] @ c) = export_heading i t @ [LF, LF] @ c"
      by (intro trim_fixed) (simp_all add: h not_ws_83)
    with False show ?thesis by simp
  qed
qed

lemma block_lines:
  assumes "normal_title t" and "normal_content c"
  shows "slide_lines (export_heading i t @ [LF, LF] @ c) =
     export_heading i t # (if c = [] then [] else js_split [LF] c)"
proof -
  have nolf: "LF \<notin> set (export_heading i t)"
    using normal_title_ends [OF assms(1)] by (simp add: heading_no_LF)
  have hn: "trim (export_heading i t) \<noteq> []"
    using heading_Cons [of i t] by (auto simp: heading_trim [OF assms(1)])
  show ?thesis
  proof (cases "c = []")
    case True
    have "trim (export_heading i t @ [LF, LF]) = export_heading i t"
      using block_trim [OF assms, of i] True by simp
    then have "slide_lines (export_heading i t @ [LF, LF]) = [export_heading i t]"
      using hn by (simp add: slide_lines_def js_split_no_LF [OF nolf])
    with True show ?thesis by simp
  next
    case False
    with assms(2) have lines: "list_all (\<lambda>l. trim l \<noteq> []) (js_split [LF] c)"
      by (simp add: normal_content_def list_all_iff)
    have "js_split [LF] (export_heading i t @ LF # LF # c) =
        export_heading i t # [] # js_split [LF] c"
      by (simp add: js_split_line [OF nolf] js_split_LF_Cons)
    moreover have "trim (export_heading i t @ [LF, LF] @ c) = export_heading i t @ [LF, LF] @ c"
      using block_trim [OF assms, of i] False by simp
    ultimately show ?thesis
      using False hn lines by (simp add: slide_lines_def trim_Nil list_all_iff)
  qed
qed

lemma block_parse:
  assumes "normal_title t" and "normal_content c"
  shows "parseSlide_view (export_heading i t @ [LF, LF] @ c) k =
     \<lparr>title = export_heading i t, content = c, index = k\<rparr>"
proof -
  have canon: "map canon_bullet (js_split [LF] c) = js_split [LF] c" if "c \<noteq> []"
    using assms(2) that by (simp add: normal_content_def list_all_iff map_idI)
  have "content (parseSlide_view (export_heading i t @ [LF, LF] @ c) k) = c"
    unfolding parseSlide_view_def Let_def block_lines [OF assms]
    using canon by (simp add: js_join_split)
  moreover have "title (parseSlide_view (export_heading i t @ [LF, LF] @ c) k) =
      export_heading i t"
    unfolding parseSlide_view_def Let_def block_lines [OF assms]
    by (simp add: heading_title [OF assms(1)])
  moreover have "index (parseSlide_view (export_heading i t @ [LF, LF] @ c) k) = k"
    by (simp add: parseSlide_view_def Let_def)
  ultimately show ?thesis
    by (cases "parseSlide_view (export_heading i t @ [LF, LF] @ c) k") simp
qed

lemma block_kept:
  assumes "normal_title t" and "normal_content c"
  shows "keep_block (export_heading i t @ [LF, LF] @ c)"
proof -
  obtain rest where h: "export_heading i t = 83 # rest"
    using heading_Cons by blast
  have "trim (export_heading i t @ [LF, LF] @ c) = 83 # rest \<or>
      trim (export_heading i t @ [LF, LF] @ c) = 83 # rest @ [LF, LF] @ c"
    unfolding block_trim [OF assms] by (simp add: h)
  then show ?thesis
    unfolding keep_block_def by (auto simp: TOKEN_def asc_def)
qed

section \<open>Separators in exported text\<close>

lemma js_split_no_match:
  "(\<forall>p<length b. \<not> prefix sep (drop p (b @ rest))) \<Longrightarrow>
   js_split sep (b @ rest) = (b @ hd (js_split sep rest)) # tl (js_split sep rest)"
proof (induction b)
  case Nil
  then show ?case by simp
next
  case (Cons c cs)
  have "\<forall>p<length cs. \<not> prefix sep (drop p (cs @ rest))"
  proof (intro allI impI)
    fix p
    assume "p < length cs"
    then have "\<not> prefix sep (drop (Suc p) ((c # cs) @ rest))"
      using Cons.prems by (metis Suc_less_eq length_Cons)
    then show "\<not> prefix sep (drop p (cs @ rest))"
      by simp
  qed
  then have IH: "js_split sep (cs @ rest) =
      (cs @ hd (js_split sep rest)) # tl (js_split sep rest)"
    by (rule Cons.IH)
  have "\<not> prefix sep ((c # cs) @ rest)"
    using Cons.prems by (metis drop0 length_greater_0_conv list.distinct(1))
  then show ?case
    by (simp add: js_split_no_prefix IH)
qed

lemma js_split_join_blocks:
  assumes "sep \<noteq> []" and "bs \<noteq> []"
    and "\<And>b rest. b \<in> set bs \<Longrightarrow> rest = [] \<or> (\<exists>more. rest = sep @ more) \<Longrightarrow>
          \<forall>p<length b. \<not> prefix sep (drop p (b @ rest))"
  shows "js_split sep (js_join sep bs) = bs"
  using assms
proof (induction sep bs rule: js_join.induct)
  case (1 sep)
  then show ?case by simp
next
  case (2 sep x)
  have "\<forall>p<length x. \<not> prefix sep (drop p (x @ []))"
    by (rule 2(3)) simp_all
  from js_split_no_match [OF this] show ?case
    by simp
next
  case (3 sep x y ys)
  have IH: "js_split sep (js_join sep (y # ys)) = y # ys"
    by (rule 3(1)) (rule 3(2), simp, rule 3(4), simp_all)
  have "\<forall>p<length x. \<not> prefix sep (drop p (x @ sep @ js_join sep (y # ys)))"
    by (rule 3(4)) auto
  from js_split_no_match [OF this] show ?case
    using 3(2) IH by (simp add: js_split_prefix)
qed

lemma separator_shape: "prefix SEPARATOR y \<Longrightarrow> \<exists>y'. y = LF # LF # 45 # y'"
  by (auto simp: SEPARATOR_def TOKEN_def asc_def prefix_def)

lemma no_empty_line_no_double_LF:
  "[] \<notin> set (tl (js_split [LF] s)) \<Longrightarrow> \<not> prefix [LF, LF] (drop q s)"
proof (induction s arbitrary: q)
  case Nil
  then show ?case by simp
next
  case (Cons c cs)
  have tl_ok: "[] \<notin> set (tl (js_split [LF] cs))"
  proof (cases "c = LF")
    case True
    with Cons.prems have "[] \<notin> set (js_split [LF] cs)"
      by (simp add: js_split_LF_Cons)
    then show ?thesis
      by (metis list.set_sel(2) js_split_not_Nil)
  next
    case False
    with Cons.prems show ?thesis
      by (simp add: js_split_LF_Cons)
  qed
  show ?case
  proof (cases q)
    case 0
    show ?thesis
    proof
      assume "prefix [LF, LF] (drop q (c # cs))"
      with 0 obtain cs' where c: "c = LF" and cs: "cs = LF # cs'"
        by (cases cs) auto
      from c Cons.prems have "[] \<notin> set (js_split [LF] cs)"
        by (simp add: js_split_LF_Cons)
      with cs show False
        by (simp add: js_split_LF_Cons)
    qed
  next
    case (Suc q')
    with Cons.IH [OF tl_ok, of q'] show ?thesis by simp
  qed
qed

lemma normal_content_facts:
  assumes "normal_content c" and "c \<noteq> []"
  shows "hd c \<noteq> LF" and "hd c \<noteq> 45" and "last c \<noteq> LF"
    and "\<not> prefix [LF, LF] (drop q c)"
proof -
  from assms have lines: "\<forall>l\<in>set (js_split [LF] c). trim l \<noteq> [] \<and> canon_bullet l = l"
    and lst: "\<not> is_ws (last c)"
    by (simp_all add: normal_content_def list_all_iff)
  from lst show "last c \<noteq> LF"
    by (auto simp: is_ws_def LF_def)
  have ne: "[] \<notin> set (js_split [LF] c)"
    using lines trim_Nil by auto
  then have "[] \<notin> set (tl (js_split [LF] c))"
    by (metis list.set_sel(2) js_split_not_Nil)
  then show "\<not> prefix [LF, LF] (drop q c)"
    by (rule no_empty_line_no_double_LF)
  obtain x xs where c: "c = x # xs"
    using assms(2) by (cases c) auto
  show h: "hd c \<noteq> LF"
  proof
    assume "hd c = LF"
    with c have "[] \<in> set (js_split [LF] c)"
      by (simp add: js_split_LF_Cons)
    with ne show False by simp
  qed
  from h c have first: "hd (js_split [LF] c) = x # hd (js_split [LF] xs)"
    by (simp add: js_split_LF_Cons)
  have "hd (js_split [LF] c) \<in> set (js_split [LF] c)"
    by simp
  with lines first have "canon_bullet (x # hd (js_split [LF] xs)) = x # hd (js_split [LF] xs)"
    by metis
  then have "x \<noteq> 45"
    by (auto simp: canon_bullet_def BULLET_def)
  with c show "hd c \<noteq> 45"
    by simp
qed

lemma block_tail_no_separator:
  assumes "normal_content c" and "rest = [] \<or> (\<exists>more. rest = SEPARATOR @ more)"
    and "k < length c + 2"
  shows "\<not> prefix SEPARATOR (drop k (LF # LF # c @ rest))"
proof
  assume pre: "prefix SEPARATOR (drop k (LF # LF # c @ rest))"
  then obtain y where y: "drop k (LF # LF # c @ rest) = LF # LF # 45 # y"
    using separator_shape by blast
  have LF45: "LF \<noteq> 45"
    by (simp add: LF_def)
  consider "k = 0" | "k = 1" | q where "k = q + 2" "q < length c"
    using assms(3) by (cases k; cases "k - 1") auto
  then show False
  proof cases
    case 1
    with y have cr: "c @ rest = 45 # y"
      by simp
    show False
    proof (cases "c = []")
      case True
      with cr assms(2) LF45 show False
        by (auto simp: SEPARATOR_def)
    next
      case False
      with cr have "hd c = 45"
        by (cases c) auto
      with normal_content_facts(2) [OF assms(1) False] show False
        by simp
    qed
  next
    case 2
    with y have cr: "c @ rest = LF # 45 # y"
      by simp
    show False
    proof (cases "c = []")
      case True
      with cr assms(2) LF45 show False
        by (auto simp: SEPARATOR_def)
    next
      case False
      with cr have "hd c = LF"
        by (cases c) auto
      with normal_content_facts(1) [OF assms(1) False] show False
        by simp
    qed
  next
    case 3
    then have cne: "c \<noteq> []"
      by auto
    from 3 y have d: "drop q c @ rest = LF # LF # 45 # y"
      by simp
    from 3(2) obtain z zs where dz: "drop q c = z # zs"
      by (cases "drop q c") auto
    with d have z: "z = LF"
      by simp
    have "zs \<noteq> []"
    proof
      assume "zs = []"
      with dz have "last c = z"
        by (metis last.simps last_drop 3(2))
      with z normal_content_facts(3) [OF assms(1) cne] show False
        by simp
    qed
    then obtain w ws where zs: "zs = w # ws"
      by (cases zs) auto
    with d dz have "w = LF"
      by simp
    with dz zs z have "prefix [LF, LF] (drop q c)"
      by simp
    with normal_content_facts(4) [OF assms(1) cne, of q] show False
      by simp
  qed
qed

lemma block_no_separator:
  assumes "normal_title t" and "normal_content c"
    and "rest = [] \<or> (\<exists>more. rest = SEPARATOR @ more)"
  shows "\<forall>p<length (export_heading i t @ [LF, LF] @ c).
     \<not> prefix SEPARATOR (drop p ((export_heading i t @ [LF, LF] @ c) @ rest))"
proof (intro allI impI)
  fix p
  assume p: "p < length (export_heading i t @ [LF, LF] @ c)"
  have nolf: "LF \<notin> set (export_heading i t)"
    using normal_title_ends [OF assms(1)] by (simp add: heading_no_LF)
  show "\<not> prefix SEPARATOR (drop p ((export_heading i t @ [LF, LF] @ c) @ rest))"
  proof (cases "p < length (export_heading i t)")
    case True
    then have "drop p (export_heading i t) =
        export_heading i t ! p # drop (Suc p) (export_heading i t)"
      by (simp add: Cons_nth_drop_Suc)
    moreover from True nolf have "export_heading i t ! p \<noteq> LF"
      by (metis nth_mem)
    ultimately show ?thesis
      using True by (auto dest!: separator_shape)
  next
    case False
    then have "drop p ((export_heading i t @ [LF, LF] @ c) @ rest) =
        drop (p - length (export_heading i t)) (LF # LF # c @ rest)"
      by simp
    moreover from False p have "p - length (export_heading i t) < length c + 2"
      by simp
    ultimately show ?thesis
      using block_tail_no_separator [OF assms(2,3)] by simp
  qed
qed

lemma enumerate_map_enumerate:
  "map (\<lambda>(idx, b). g b idx) (enumerate n (map (\<lambda>(i, s). f i s) (enumerate n xs))) =
   map (\<lambda>(i, s). g (f i s) i) (enumerate n xs)"
  by (induction xs arbitrary: n) simp_all

lemma SEPARATOR_not_Nil: "SEPARATOR \<noteq> []"
  by (simp add: SEPARATOR_def)

lemma parsedSlides_downloadAsTXT:
  assumes "\<forall>s\<in>set slides. normal_title (title s) \<and> normal_content (content s)"
  shows "parsedSlides (downloadAsTXT slides) =
    map (\<lambda>(i, s). reparsed i s) (enumerate 0 slides)"
proof (cases "slides = []")
  case True
  then show ?thesis
    by (simp add: parsedSlides_def downloadAsTXT_def keep_block_def trim_Nil)
next
  case False
  define blocks where "blocks = map (\<lambda>(i, s). export_block i s) (enumerate 0 slides)"
  have blocks_ne: "blocks \<noteq> []"
    using False by (cases slides) (simp_all add: blocks_def)
  have shape: "\<exists>i s. s \<in> set slides \<and> b = export_heading i (title s) @ [LF, LF] @ content s"
    if "b \<in> set blocks" for b
    using that
    by (auto simp: blocks_def export_block_heading in_set_enumerate_eq intro: nth_mem)
       (metis nth_mem)
  have safe: "\<forall>p<length b. \<not> prefix SEPARATOR (drop p (b @ rest))"
    if "b \<in> set blocks" and "rest = [] \<or> (\<exists>more. rest = SEPARATOR @ more)" for b rest
  proof -
    from shape [OF that(1)] obtain i s where s: "s \<in> set slides"
      and b: "b = export_heading i (title s) @ [LF, LF] @ content s"
      by blast
    from s assms have "normal_title (title s)" and "normal_content (content s)"
      by simp_all
    from block_no_separator [OF this that(2)] show ?thesis
      by (simp only: b)
  qed
  have split: "js_split SEPARATOR (js_join SEPARATOR blocks) = blocks"
    using SEPARATOR_not_Nil blocks_ne safe by (rule js_split_join_blocks)
  have kept: "filter keep_block blocks = blocks"
  proof -
    have "keep_block b" if "b \<in> set blocks" for b
    proof -
      from shape [OF that] obtain i s where s: "s \<in> set slides"
        and b: "b = export_heading i (title s) @ [LF, LF] @ content s"
        by blast
      from s assms have "normal_title (title s)" and "normal_content (content s)"
        by simp_all
      from block_kept [OF this] show ?thesis
        by (simp only: b)
    qed
    then show ?thesis
      by (simp add: filter_id_conv)
  qed
  have "parsedSlides (downloadAsTXT slides) =
      map (\<lambda>(idx, b). parseSlide_view b idx) (enumerate 0 blocks)"
    by (simp add: parsedSlides_def downloadAsTXT_def blocks_def [symmetric] split kept)
  also have "\<dots> = map (\<lambda>(i, s). parseSlide_view (export_block i s) i) (enumerate 0 slides)"
    unfolding blocks_def by (rule enumerate_map_enumerate)
  also have "\<dots> = map (\<lambda>(i, s). reparsed i s) (enumerate 0 slides)"
  proof (rule map_cong [OF refl])
    fix x
    assume "x \<in> set (enumerate 0 slides)"
    then have "fst x < length slides" and "slides ! fst x = snd x"
      by (simp_all add: in_set_enumerate_eq)
    then have "snd x \<in> set slides"
      by (metis nth_mem)
    then obtain i s where x: "x = (i, s)" and s: "s \<in> set slides"
      by (cases x) auto
    from s assms have "normal_title (title s)" and "normal_content (content s)"
      by simp_all
    from block_parse [OF this, of i i]
    show "(case x of (i, s) \<Rightarrow> parseSlide_view (export_block i s) i) =
        (case x of (i, s) \<Rightarrow> reparsed i s)"
      by (simp add: x export_block_heading reparsed_def)
  qed
  finally show ?thesis .
qed

lemma map_reparsed_enumerate:
  "map content (map (\<lambda>(i, s). reparsed i s) (enumerate n slides)) = map content slides \<and>
   map index (map (\<lambda>(i, s). reparsed i s) (enumerate n slides)) = [n..<n + length slides]"
  by (induction slides arbitrary: n) (simp_all add: reparsed_def upt_rec)

lemma downloadAsTXT_not_Nil:
  assumes "slides \<noteq> []"
  shows "downloadAsTXT slides \<noteq> []"
proof -
  from assms obtain s rest where sl: "slides = s # rest"
    by (cases slides) auto
  obtain more where "export_block 0 s = 83 # more"
    by (auto simp: export_block_def asc_def)
  then show ?thesis
    by (simp add: downloadAsTXT_def sl js_join_hd_Cons)
qed

text \<open>
  C1 fails. The slide that \<open>load\<close> makes of the stored content of the two lines "A"
  and "x" is exported by \<open>downloadAsTXT\<close> as the heading "Slide 1: A", an empty line and
  "x": a text rebuilt from the slides, not the original content that the comment in
  \<open>downloadAsTXT\<close> announces. Loading that text gives a slide whose title is
  "Slide 1: A" and not "A".
\<close>

theorem export_reparse_changes_title:
  "load [] (Some (asc ''A'' @ [LF] @ asc ''x'')) =
     [\<lparr>title = asc ''A'', content = asc ''x'', index = 0\<rparr>] \<and>
   downloadAsTXT (load [] (Some (asc ''A'' @ [LF] @ asc ''x''))) =
     asc ''Slide 1: A'' @ [LF, LF] @ asc ''x'' \<and>
   load [] (Some (downloadAsTXT (load [] (Some (asc ''A'' @ [LF] @ asc ''x''))))) =
     [\<lparr>title = asc ''Slide 1: A'', content = asc ''x'', index = 0\<rparr>] \<and>
   load [] (Some (downloadAsTXT (load [] (Some (asc ''A'' @ [LF] @ asc ''x''))))) \<noteq>
     load [] (Some (asc ''A'' @ [LF] @ asc ''x''))"
proof -
  have s0: "js_split SEPARATOR (asc ''A'' @ [LF] @ asc ''x'') = [asc ''A'' @ [LF] @ asc ''x'']"
    by (simp add: SEPARATOR_def TOKEN_def asc_def LF_def js_split.simps(2))
  have k0: "keep_block (asc ''A'' @ [LF] @ asc ''x'')"
    by (simp add: keep_block_def TOKEN_def normalize_eval)
  have p0: "parseSlide_view (asc ''A'' @ [LF] @ asc ''x'') 0 =
      \<lparr>title = asc ''A'', content = asc ''x'', index = 0\<rparr>"
    by (simp add: parseSlide_view_def normalize_eval)
  have ne0: "asc ''A'' @ [LF] @ asc ''x'' \<noteq> []"
    by (simp add: asc_def)
  have l0: "load [] (Some (asc ''A'' @ [LF] @ asc ''x'')) =
      [\<lparr>title = asc ''A'', content = asc ''x'', index = 0\<rparr>]"
    unfolding load_content [OF ne0] parsedSlides_def s0 using k0 p0 by simp
  have t: "downloadAsTXT [\<lparr>title = asc ''A'', content = asc ''x'', index = 0\<rparr>] =
      asc ''Slide 1: A'' @ [LF, LF] @ asc ''x''"
    by (simp add: downloadAsTXT_def export_block_def digits.simps asc_def)
  have s: "js_split SEPARATOR (asc ''Slide 1: A'' @ [LF, LF] @ asc ''x'') =
      [asc ''Slide 1: A'' @ [LF, LF] @ asc ''x'']"
    by (simp add: SEPARATOR_def TOKEN_def asc_def LF_def js_split.simps(2))
  have k: "keep_block (asc ''Slide 1: A'' @ [LF, LF] @ asc ''x'')"
    by (simp add: keep_block_def TOKEN_def normalize_eval)
  have p: "parseSlide_view (asc ''Slide 1: A'' @ [LF, LF] @ asc ''x'') 0 =
      \<lparr>title = asc ''Slide 1: A'', content = asc ''x'', index = 0\<rparr>"
    by (simp add: parseSlide_view_def normalize_eval)
  have ne: "asc ''Slide 1: A'' @ [LF, LF] @ asc ''x'' \<noteq> []"
    by (simp add: asc_def)
  have l1: "load [] (Some (asc ''Slide 1: A'' @ [LF, LF] @ asc ''x'')) =
     [\<lparr>title = asc ''Slide 1: A'', content = asc ''x'', index = 0\<rparr>]"
    unfolding load_content [OF ne] parsedSlides_def s using k p by simp
  have "asc ''Slide 1: A'' \<noteq> asc ''A''"
    by (simp add: asc_def)
  then show ?thesis
    unfolding l0 t l1 by simp
qed

text \<open>
  The extent of the change. For slides whose title is one non-empty trimmed line that
  does not end in ** and whose content is empty or made of lines that are not blank,
  have no bullet left to replace and no white space at the end, the slides made of the
  exported text are as many as were exported, with the same contents, the indices
  0, ..., N - 1 of their positions, and as titles the headings "Slide {n}: {title}" of
  the exported blocks. (A title that ends in ** changes in a second way: the stars at
  the end of the heading are stripped as well.)
\<close>

lemma export_reparse:
  assumes "\<forall>s\<in>set slides. normal_title (title s) \<and> normal_content (content s)"
  shows "parsedSlides (downloadAsTXT slides) =
      map (\<lambda>(i, s). reparsed i s) (enumerate 0 slides) \<and>
    length (parsedSlides (downloadAsTXT slides)) = length slides \<and>
    map content (parsedSlides (downloadAsTXT slides)) = map content slides \<and>
    map index (parsedSlides (downloadAsTXT slides)) = [0..<length slides] \<and>
    (slides \<noteq> [] \<longrightarrow>
       load sl (Some (downloadAsTXT slides)) = parsedSlides (downloadAsTXT slides))"
  using map_reparsed_enumerate [of 0 slides]
  by (simp add: parsedSlides_downloadAsTXT [OF assms] load_content downloadAsTXT_not_Nil)

lemma export_reparse_example:
  "normal_title (asc ''A'') \<and> normal_content (BULLET # asc '' x'') \<and>
   normal_title (asc ''B'') \<and> normal_content [] \<and>
   parsedSlides
       (downloadAsTXT [\<lparr>title = asc ''A'', content = BULLET # asc '' x'', index = 0\<rparr>,
                       \<lparr>title = asc ''B'', content = [], index = 1\<rparr>]) =
     [\<lparr>title = asc ''Slide 1: A'', content = BULLET # asc '' x'', index = 0\<rparr>,
      \<lparr>title = asc ''Slide 2: B'', content = [], index = 1\<rparr>]"
proof -
  have a: "normal_title (asc ''A'')"
    by (simp add: normal_title_def normalize_eval)
  have b: "normal_title (asc ''B'')"
    by (simp add: normal_title_def normalize_eval)
  have c: "normal_content (BULLET # asc '' x'')"
    by (simp add: normal_content_def normalize_eval)
  have d: "normal_content []"
    by (simp add: normal_content_def)
  have "\<forall>s\<in>set [\<lparr>title = asc ''A'', content = BULLET # asc '' x'', index = 0\<rparr>,
                  \<lparr>title = asc ''B'', content = [], index = 1\<rparr>].
          normal_title (title s) \<and> normal_content (content s)"
    using a b c d by simp
  from export_reparse [OF this]
  have "parsedSlides
       (downloadAsTXT [\<lparr>title = asc ''A'', content = BULLET # asc '' x'', index = 0\<rparr>,
                       \<lparr>title = asc ''B'', content = [], index = 1\<rparr>]) =
      map (\<lambda>(i, s). reparsed i s)
        (enumerate 0 [\<lparr>title = asc ''A'', content = BULLET # asc '' x'', index = 0\<rparr>,
                      \<lparr>title = asc ''B'', content = [], index = 1\<rparr>])"
    by blast
  also have "\<dots> = [\<lparr>title = asc ''Slide 1: A'', content = BULLET # asc '' x'', index = 0\<rparr>,
      \<lparr>title = asc ''Slide 2: B'', content = [], index = 1\<rparr>]"
    by (simp add: reparsed_def export_heading_def digits.simps asc_def)
  finally show ?thesis
    using a b c d by blast
qed

end
